theory Spec2Isabelle
  imports Complex_Main "HOL-Library.AList"
begin

section \<open>Strings of the JavaScript sources\<close>

text \<open>
  A JavaScript string is a sequence of UTF-16 code units. The development works with the
  code units \<open>0x00\<close> .. \<open>0xFF\<close> (Basic Latin and Latin-1 Supplement), which hold every
  letter of Catalan: one \<^typ>\<open>char\<close> is one code unit, \<open>CHR 0xE0\<close> is "a grave",
  \<open>CHR 0xE7\<close> is "c cedilla". The built-in string methods the sources call are written
  out for that range.
\<close>

definition startsWith :: "string \<Rightarrow> string \<Rightarrow> bool" where
  "startsWith s p = (take (length p) s = p)"

definition endsWith :: "string \<Rightarrow> string \<Rightarrow> bool" where
  "endsWith s p = (length p \<le> length s \<and> drop (length s - length p) s = p)"

definition includesUnit :: "string \<Rightarrow> char \<Rightarrow> bool" where
  \<comment> \<open>\<open>s.includes(c)\<close> for a one-unit search string\<close>
  "includesUnit s c = (c \<in> set s)"

definition slice_0_m2 :: "string \<Rightarrow> string" where
  \<comment> \<open>\<open>s.slice(0, -2)\<close>: everything but the last two code units, empty when there are fewer\<close>
  "slice_0_m2 s = take (length s - 2) s"

definition splitFirst :: "char \<Rightarrow> string \<Rightarrow> string" where
  \<comment> \<open>\<open>s.split(c)[0]\<close>: the text before the first separator, all of it when there is none\<close>
  "splitFirst c s = takeWhile (\<lambda>x. x \<noteq> c) s"

definition isSpace :: "char \<Rightarrow> bool" where
  \<comment> \<open>the class \<open>\s\<close>, which is also what \<open>trim\<close> removes: TAB, LF, VT, FF, CR, SP, NBSP\<close>
  "isSpace c = (let n = (of_char c :: nat) in (9 \<le> n \<and> n \<le> 13) \<or> n = 32 \<or> n = 160)"

definition trim :: "string \<Rightarrow> string" where
  "trim s = rev (dropWhile isSpace (rev (dropWhile isSpace s)))"

definition toLowerCase_unit :: "char \<Rightarrow> char" where
  \<comment> \<open>A..Z and the capital letters 0xC0..0xDE (not the multiplication sign 0xD7)\<close>
  "toLowerCase_unit c =
     (let n = (of_char c :: nat) in
      if (65 \<le> n \<and> n \<le> 90) \<or> (192 \<le> n \<and> n \<le> 222 \<and> n \<noteq> 215)
      then char_of (n + 32) else c)"

definition toLowerCase :: "string \<Rightarrow> string" where
  "toLowerCase s = map toLowerCase_unit s"

definition nfdBase :: "char \<Rightarrow> char" where
  \<comment> \<open>the first code unit of the canonical decomposition (NFD) of a Latin-1 code unit;
      the units that follow it in the decomposition are combining marks\<close>
  "nfdBase c =
     (let n = (of_char c :: nat) in
      if 192 \<le> n \<and> n \<le> 197 then CHR ''A''
      else if n = 199 then CHR ''C''
      else if 200 \<le> n \<and> n \<le> 203 then CHR ''E''
      else if 204 \<le> n \<and> n \<le> 207 then CHR ''I''
      else if n = 209 then CHR ''N''
      else if 210 \<le> n \<and> n \<le> 214 then CHR ''O''
      else if 217 \<le> n \<and> n \<le> 220 then CHR ''U''
      else if n = 221 then CHR ''Y''
      else if 224 \<le> n \<and> n \<le> 229 then CHR ''a''
      else if n = 231 then CHR ''c''
      else if 232 \<le> n \<and> n \<le> 235 then CHR ''e''
      else if 236 \<le> n \<and> n \<le> 239 then CHR ''i''
      else if n = 241 then CHR ''n''
      else if 242 \<le> n \<and> n \<le> 246 then CHR ''o''
      else if 249 \<le> n \<and> n \<le> 252 then CHR ''u''
      else if n = 253 \<or> n = 255 then CHR ''y''
      else c)"

section \<open>The application (App.jsx)\<close>

subsection \<open>Per-character status\<close>

definition stripAccents :: "string \<Rightarrow> string" where
  \<comment> \<open>\<open>value.normalize("NFD")\<close>, then the removal of the combining marks
      U+0300 .. U+036F: what is left of every code unit is its base letter\<close>
  "stripAccents v = map nfdBase v"

definition baseChar :: "string \<Rightarrow> string" where
  "baseChar ch = stripAccents (toLowerCase ch)"

definition getStatus :: "string \<Rightarrow> string \<Rightarrow> bool \<Rightarrow> string" where
  "getStatus typedChar expectedChar isHinted =
     (if typedChar = [] then ''empty''
      else if isHinted then ''yellow''
      else
        let typedLower = toLowerCase typedChar;
            expectedLower = toLowerCase expectedChar
        in if typedLower = expectedLower then ''green''
           else if baseChar typedLower = baseChar expectedLower then ''yellow''
           else ''red'')"

subsection \<open>Regular forms\<close>

text \<open>
  The generator of the regular forms, of the version of \<open>App.jsx\<close> that computes a form
  when the entry stores none.
\<close>

definition PERSONS :: "string list" where
  "PERSONS = [''jo'', ''tu'', ''ell'', ''nosaltres'', ''vosaltres'', ''ells'']"

definition getVerbGroup :: "string \<Rightarrow> string" where
  "getVerbGroup infinitive =
     (if endsWith infinitive ''ar'' then ''ar''
      else if endsWith infinitive ''ir'' then ''ir''
      else if endsWith infinitive ''er'' \<or> endsWith infinitive ''re'' then ''er''
      else ''ar'')"

definition formOf :: "(string \<times> string) list \<Rightarrow> string \<Rightarrow> string" where
  \<comment> \<open>\<open>{jo: ..., tu: ...}[person] ?? ""\<close> on an object literal with the six person keys\<close>
  "formOf table person = (case map_of table person of Some f \<Rightarrow> f | None \<Rightarrow> [])"

definition regularPresent :: "string \<Rightarrow> string \<Rightarrow> string \<Rightarrow> string" where
  "regularPresent infinitive grp person =
     (let stem = slice_0_m2 infinitive in
      if grp = ''ar'' then
        formOf [(''jo'', stem @ ''o''), (''tu'', stem @ ''es''), (''ell'', stem @ ''a''),
                (''nosaltres'', stem @ ''em''), (''vosaltres'', stem @ ''eu''),
                (''ells'', stem @ ''en'')] person
      else if grp = ''ir'' then
        formOf [(''jo'', stem @ ''o''), (''tu'', stem @ ''s''), (''ell'', stem),
                (''nosaltres'', stem @ ''im''), (''vosaltres'', stem @ ''iu''),
                (''ells'', stem @ ''en'')] person
      else
        formOf [(''jo'', stem @ ''o''), (''tu'', stem @ ''s''), (''ell'', stem),
                (''nosaltres'', stem @ ''em''), (''vosaltres'', stem @ ''eu''),
                (''ells'', stem @ ''en'')] person)"

subsection \<open>The dataset and the filter state\<close>

type_synonym forms = "(string \<times> string) list"
type_synonym tenseTable = "(string \<times> forms) list"

text \<open>
  An entry of \<open>verbs.json\<close>, as the application reads it: the infinitive, and a table
  from tense to person to form. The application reads \<open>regular\<close> with
  \<open>verb.regular !== false\<close>, so an entry without the field (\<open>None\<close>) counts as
  regular; and it reads \<open>rank\<close> with \<open>typeof verb.rank === "number"\<close>, so an entry
  may have no rank (\<open>None\<close>).
\<close>

record appVerb =
  infinitive :: string
  regular :: "bool option"
  rank :: "nat option"
  tenses :: tenseTable

text \<open>
  The three pieces of filter state (\<open>enabledPersons\<close>, \<open>enabledTenses\<close>,
  \<open>verbFilters\<close>) are objects from a key to a boolean, kept in the order of their keys.
\<close>

type_synonym flags = "(string \<times> bool) list"

definition flag :: "flags \<Rightarrow> string \<Rightarrow> bool" where
  \<comment> \<open>the truthiness of \<open>obj[k]\<close>; a missing key reads \<open>undefined\<close>\<close>
  "flag obj k = (map_of obj k = Some True)"

definition sampleVerb :: "string \<Rightarrow> nat \<Rightarrow> bool \<Rightarrow> appVerb" where
  \<comment> \<open>a dataset entry for the examples: its table has the present tense, with the forms
      of the regular pattern\<close>
  "sampleVerb name r reg =
     \<lparr>infinitive = name, regular = Some reg, rank = Some r,
      tenses = [(''present'',
                 map (\<lambda>p. (p, regularPresent name (getVerbGroup name) p)) PERSONS)]\<rparr>"

record prompt =
  verb :: appVerb
  person :: string
  tense :: string
  key :: string

subsection \<open>The prompts of a filter state\<close>

text \<open>
  The functions of this and the next two subsections are those of the current
  \<open>App.jsx\<close>, which reads the forms from the table of the entry. The dataset \<open>verbs\<close>,
  imported by the source, is a parameter.
\<close>

definition TENSES :: "string list" where
  "TENSES = [''present'', ''imperfect'', ''future'', ''conditional'',
             ''subjunctive_present'', ''subjunctive_imperfect'', ''imperative'']"

definition getConjugation :: "appVerb \<Rightarrow> string \<Rightarrow> string \<Rightarrow> string" where
  \<comment> \<open>\<open>verb.tenses?.[tense]?.[person] ?? ""\<close>\<close>
  "getConjugation v t p =
     (case map_of (tenses v) t of
        None \<Rightarrow> []
      | Some block \<Rightarrow> (case map_of block p of None \<Rightarrow> [] | Some form \<Rightarrow> form))"

definition getVerbRank :: "appVerb \<Rightarrow> nat \<Rightarrow> nat" where
  \<comment> \<open>\<open>typeof verb.rank === "number" ? verb.rank : index + 1\<close>\<close>
  "getVerbRank v index = (case rank v of Some r \<Rightarrow> r | None \<Rightarrow> index + 1)"

definition getFilteredVerbs :: "appVerb list \<Rightarrow> flags \<Rightarrow> nat \<Rightarrow> appVerb list" where
  \<comment> \<open>\<open>verbs.filter((verb, index) => ...)\<close>\<close>
  "getFilteredVerbs verbs verbFilters verbLimit =
     map fst
       (filter (\<lambda>(v, index).
                  let isRegular = (regular v \<noteq> Some False) in
                  if isRegular \<and> \<not> flag verbFilters ''regular'' then False
                  else if \<not> isRegular \<and> \<not> flag verbFilters ''irregular'' then False
                  else if getVerbRank v index > verbLimit then False
                  else True)
          (zip verbs [0 ..< length verbs]))"

definition typeFiltered :: "appVerb list \<Rightarrow> flags \<Rightarrow> appVerb list" where
  \<comment> \<open>the verbs that pass the verb-type filter, the first two tests of
      \<open>getFilteredVerbs\<close>\<close>
  "typeFiltered verbs verbFilters =
     filter (\<lambda>v. let isRegular = (regular v \<noteq> Some False) in
                  if isRegular \<and> \<not> flag verbFilters ''regular'' then False
                  else if \<not> isRegular \<and> \<not> flag verbFilters ''irregular'' then False
                  else True) verbs"

definition enabledList :: "string list \<Rightarrow> flags \<Rightarrow> string list" where
  \<comment> \<open>\<open>PERSONS.filter((person) => enabledPersons[person])\<close>, and the same for the tenses\<close>
  "enabledList names obj = filter (\<lambda>k. flag obj k) names"

definition isLast :: "string option \<Rightarrow> string \<Rightarrow> bool" where
  \<comment> \<open>\<open>lastKey && key === lastKey\<close>: \<open>null\<close>, \<open>undefined\<close> and \<open>""\<close> are falsy\<close>
  "isLast lastKey k = (lastKey \<noteq> None \<and> lastKey \<noteq> Some [] \<and> lastKey = Some k)"

definition promptAt :: "appVerb \<Rightarrow> string \<Rightarrow> string \<Rightarrow> string option \<Rightarrow> prompt list" where
  \<comment> \<open>the body of the innermost loop of \<open>getAvailablePrompts\<close>: what it pushes\<close>
  "promptAt v t p lastKey =
     (let answer = getConjugation v t p
      in if answer = [] then []
         else let k = infinitive v @ ''-'' @ p @ ''-'' @ t
              in if isLast lastKey k then []
                 else [\<lparr>verb = v, person = p, tense = t, key = k\<rparr>])"

definition getAvailablePrompts ::
  "appVerb list \<Rightarrow> flags \<Rightarrow> flags \<Rightarrow> string option \<Rightarrow> prompt list" where
  \<comment> \<open>the three nested loops: verbs, then tenses, then persons\<close>
  "getAvailablePrompts filteredVerbs enabledPersons enabledTenses lastKey =
     (let enabledPersonList = enabledList PERSONS enabledPersons;
          enabledTenseList = enabledList TENSES enabledTenses
      in if length enabledPersonList = 0 \<or> length enabledTenseList = 0 then []
         else concat (map (\<lambda>v.
                concat (map (\<lambda>t.
                  concat (map (\<lambda>p. promptAt v t p lastKey) enabledPersonList))
                  enabledTenseList))
                filteredVerbs))"

definition element :: "'a list \<Rightarrow> nat \<Rightarrow> 'a option" where
  \<comment> \<open>\<open>xs[i]\<close>: \<open>undefined\<close>, here \<open>None\<close>, beyond the end\<close>
  "element xs i = (if i < length xs then Some (xs ! i) else None)"

text \<open>
  \<open>Math.random()\<close> is the environment's. \<open>pickNextPrompt\<close> calls it once, in
  \<open>Math.floor(Math.random() * prompts.length)\<close>: the parameter \<open>pick\<close> is the number this
  expression gives at the call, as a function of the length. The result \<open>None\<close> is the
  \<open>null\<close> of the source, and the \<open>undefined\<close> that an index beyond the end of
  \<open>prompts\<close> gives.
\<close>

definition pickFirst :: "nat \<Rightarrow> nat" where
  \<comment> \<open>a call at which \<open>Math.random\<close> returns 0\<close>
  "pickFirst n = 0"

definition pickNextPrompt ::
  "(nat \<Rightarrow> nat) \<Rightarrow> appVerb list \<Rightarrow> flags \<Rightarrow> flags \<Rightarrow> flags \<Rightarrow> nat \<Rightarrow> string option \<Rightarrow>
   prompt option" where
  "pickNextPrompt pick verbs enabledPersons enabledTenses verbFilters verbLimit lastKey =
     (let filteredVerbs = getFilteredVerbs verbs verbFilters verbLimit
      in if length filteredVerbs = 0 then None
         else let prompts = getAvailablePrompts filteredVerbs enabledPersons enabledTenses lastKey
              in if length prompts = 0 then None
                 else element prompts (pick (length prompts)))"

definition hasAvailablePrompts :: "appVerb list \<Rightarrow> flags \<Rightarrow> flags \<Rightarrow> flags \<Rightarrow> nat \<Rightarrow> bool" where
  "hasAvailablePrompts verbs enabledPersons enabledTenses verbFilters verbLimit =
     (let filteredVerbs = getFilteredVerbs verbs verbFilters verbLimit
      in if length filteredVerbs = 0 then False
         else length (getAvailablePrompts filteredVerbs enabledPersons enabledTenses None) > 0)"

definition validInstances :: "appVerb list \<Rightarrow> flags \<Rightarrow> flags \<Rightarrow> flags \<Rightarrow> nat \<Rightarrow> prompt list" where
  \<comment> \<open>the valid instances of a dataset and a filter state: the prompts with no key left
      out\<close>
  "validInstances verbs enabledPersons enabledTenses verbFilters verbLimit =
     getAvailablePrompts (getFilteredVerbs verbs verbFilters verbLimit)
       enabledPersons enabledTenses None"

subsection \<open>Toggling a filter\<close>

text \<open>
  The state of the component that the toggles read and write. Each toggle passes an
  updater to the setter of its own group; the updater reads the other groups and the
  limit, and sets \<open>configError\<close>.
\<close>

record appState =
  enabledPersons :: flags
  enabledTenses :: flags
  verbFilters :: flags
  verbLimit :: nat
  configError :: bool

definition initialState :: appState where
  \<comment> \<open>the initial values of the \<open>useState\<close> calls\<close>
  "initialState =
     \<lparr>enabledPersons = [(''jo'', True), (''tu'', True), (''ell'', True), (''nosaltres'', True),
                         (''vosaltres'', True), (''ells'', True)],
      enabledTenses = [(''present'', True), (''imperfect'', False), (''future'', False),
                        (''conditional'', False), (''subjunctive_present'', False),
                        (''subjunctive_imperfect'', False), (''imperative'', False)],
      verbFilters = [(''regular'', True), (''irregular'', True)],
      verbLimit = 300,
      configError = False\<rparr>"

definition enabledCount :: "flags \<Rightarrow> nat" where
  \<comment> \<open>\<open>Object.values(prev).filter(Boolean).length\<close>\<close>
  "enabledCount prev = length (filter (\<lambda>b. b) (map snd prev))"

definition togglePerson :: "appVerb list \<Rightarrow> string \<Rightarrow> appState \<Rightarrow> appState" where
  "togglePerson verbs p st =
     (let prev = enabledPersons st
      in if flag prev p \<and> enabledCount prev = 1 then st
         else let next = AList.update p (\<not> flag prev p) prev
              in if \<not> hasAvailablePrompts verbs next (enabledTenses st) (verbFilters st)
                        (verbLimit st)
                 then st\<lparr>configError := True\<rparr>
                 else st\<lparr>enabledPersons := next, configError := False\<rparr>)"

definition toggleTense :: "appVerb list \<Rightarrow> string \<Rightarrow> appState \<Rightarrow> appState" where
  "toggleTense verbs t st =
     (let prev = enabledTenses st
      in if flag prev t \<and> enabledCount prev = 1 then st
         else let next = AList.update t (\<not> flag prev t) prev
              in if \<not> hasAvailablePrompts verbs (enabledPersons st) next (verbFilters st)
                        (verbLimit st)
                 then st\<lparr>configError := True\<rparr>
                 else st\<lparr>enabledTenses := next, configError := False\<rparr>)"

definition toggleVerbFilter :: "appVerb list \<Rightarrow> string \<Rightarrow> appState \<Rightarrow> appState" where
  "toggleVerbFilter verbs k st =
     (let prev = verbFilters st
      in if flag prev k \<and> enabledCount prev = 1 then st
         else let next = AList.update k (\<not> flag prev k) prev
              in if \<not> hasAvailablePrompts verbs (enabledPersons st) (enabledTenses st) next
                        (verbLimit st)
                 then st\<lparr>configError := True\<rparr>
                 else st\<lparr>verbFilters := next, configError := False\<rparr>)"

definition VERB_TYPES :: "string list" where
  \<comment> \<open>the two keys of \<open>verbFilters\<close>, as the settings panel lists them\<close>
  "VERB_TYPES = [''regular'', ''irregular'']"

definition filters :: "appState \<Rightarrow> flags \<times> flags \<times> flags \<times> nat" where
  \<comment> \<open>the filter state: the state without \<open>configError\<close>\<close>
  "filters st = (enabledPersons st, enabledTenses st, verbFilters st, verbLimit st)"

definition oneEnabled :: "appState \<Rightarrow> bool" where
  \<comment> \<open>at least one person, one tense and one verb type are enabled\<close>
  "oneEnabled st =
     (enabledList PERSONS (enabledPersons st) \<noteq> [] \<and>
      enabledList TENSES (enabledTenses st) \<noteq> [] \<and>
      enabledList VERB_TYPES (verbFilters st) \<noteq> [])"

section \<open>The dataset validator (validate-verbs.mjs)\<close>

text \<open>
  The validator reads \<open>verbs.json\<close> with \<open>JSON.parse\<close> and tests the shape of what it
  finds, so its input is an arbitrary JSON value. An object is the list of its members
  (keys distinct, as \<open>JSON.parse\<close> leaves them); a number is its value.
\<close>

datatype json =
  JNull | JBool bool | JNum rat | JStr string | JArr "json list" | JObj "(string \<times> json) list"

fun falsy :: "json option \<Rightarrow> bool" where
  \<comment> \<open>\<open>!x\<close>, with \<open>None\<close> for \<open>undefined\<close>\<close>
  "falsy None = True"
| "falsy (Some JNull) = True"
| "falsy (Some (JBool b)) = (\<not> b)"
| "falsy (Some (JNum n)) = (n = 0)"
| "falsy (Some (JStr s)) = (s = [])"
| "falsy (Some (JArr xs)) = False"
| "falsy (Some (JObj kvs)) = False"

fun typeofObject :: "json option \<Rightarrow> bool" where
  \<comment> \<open>\<open>typeof x === "object"\<close>\<close>
  "typeofObject (Some JNull) = True"
| "typeofObject (Some (JArr xs)) = True"
| "typeofObject (Some (JObj kvs)) = True"
| "typeofObject _ = False"

fun typeofString :: "json option \<Rightarrow> bool" where
  "typeofString (Some (JStr s)) = True"
| "typeofString _ = False"

fun jsonGet :: "json \<Rightarrow> string \<Rightarrow> json option" where
  \<comment> \<open>\<open>x[k]\<close> for the keys the validator reads (a field name, a tense, a person): a field
      of an object, \<open>undefined\<close> on an array\<close>
  "jsonGet (JObj kvs) k = map_of kvs k"
| "jsonGet _ k = None"

fun trimmedEmpty :: "json option \<Rightarrow> bool" where
  \<comment> \<open>\<open>!value.trim()\<close>, evaluated only for a string\<close>
  "trimmedEmpty (Some (JStr s)) = (trim s = [])"
| "trimmedEmpty _ = True"

definition VALIDATE_TENSES :: "string list" where
  \<comment> \<open>\<open>TENSES\<close> of the validator: seven, where the application has four\<close>
  "VALIDATE_TENSES = [''present'', ''imperfect'', ''future'', ''conditional'',
                      ''subjunctive_present'', ''subjunctive_imperfect'', ''imperative'']"

definition REQUIRED_BY_TENSE :: "(string \<times> string list) list" where
  \<comment> \<open>the source's comment on the last row: "Imperative can be defective for some verbs;
      treat as optional."\<close>
  "REQUIRED_BY_TENSE =
     [(''present'', PERSONS), (''imperfect'', PERSONS), (''future'', PERSONS),
      (''conditional'', PERSONS), (''subjunctive_present'', PERSONS),
      (''subjunctive_imperfect'', PERSONS), (''imperative'', [])]"

definition requiredPersons :: "string \<Rightarrow> string list" where
  \<comment> \<open>\<open>REQUIRED_BY_TENSE[tense] || PERSONS\<close>: an array, also the empty one, is truthy\<close>
  "requiredPersons t = (case map_of REQUIRED_BY_TENSE t of Some ps \<Rightarrow> ps | None \<Rightarrow> PERSONS)"

definition formIssues :: "json \<Rightarrow> string \<Rightarrow> string \<Rightarrow> string list" where
  \<comment> \<open>the body of the inner loop\<close>
  "formIssues tenseBlock t p =
     (let cell = jsonGet tenseBlock p
      in if falsy cell \<or> \<not> typeofString cell \<or> trimmedEmpty cell
         then [''missing-form:'' @ t @ '':'' @ p] else [])"

definition tenseIssues :: "json \<Rightarrow> string \<Rightarrow> string list" where
  \<comment> \<open>the body of the outer loop\<close>
  "tenseIssues verbTenses t =
     (let tenseBlock = jsonGet verbTenses t
      in if falsy tenseBlock \<or> \<not> typeofObject tenseBlock then [''missing-tense:'' @ t]
         else case tenseBlock of
                None \<Rightarrow> []
              | Some block \<Rightarrow> concat (map (formIssues block t) (requiredPersons t)))"

definition validateVerb :: "json \<Rightarrow> string list" where
  "validateVerb v =
     (if falsy (Some v) \<or> \<not> typeofObject (Some v) then [''invalid-verb-object'']
      else
        let issues = (if falsy (jsonGet v ''infinitive'') then [''missing-infinitive''] else [])
        in case jsonGet v ''tenses'' of
             None \<Rightarrow> issues @ [''missing-tenses'']
           | Some verbTenses \<Rightarrow>
               if falsy (Some verbTenses) \<or> \<not> typeofObject (Some verbTenses)
               then issues @ [''missing-tenses'']
               else issues @ concat (map (tenseIssues verbTenses) VALIDATE_TENSES))"

definition reportName :: "json \<Rightarrow> json" where
  \<comment> \<open>\<open>verb?.infinitive || "unknown"\<close>\<close>
  "reportName v =
     (case jsonGet v ''infinitive'' of
        None \<Rightarrow> JStr ''unknown''
      | Some name \<Rightarrow> if falsy (Some name) then JStr ''unknown'' else name)"

definition validate :: "json list \<Rightarrow> (json \<times> string list) list" where
  \<comment> \<open>the report \<open>main\<close> builds from the array it has read: one row for each entry with
      issues; the process exits with status 1 when the report is not empty\<close>
  "validate dataset =
     concat (map (\<lambda>v. let issues = validateVerb v
                        in if length issues > 0 then [(reportName v, issues)] else [])
                 dataset)"

text \<open>
  The words of the specification about a dataset entry: a cell is present and non-empty
  when the entry's table has, for the tense, an object whose jsonGet for the person is a
  string that is not blank; a tense block is present when the table has an object (or
  array) for the tense.
\<close>

definition hasForm :: "json \<Rightarrow> string \<Rightarrow> string \<Rightarrow> bool" where
  "hasForm verbTenses t p =
     (case jsonGet verbTenses t of
        Some (JObj block) \<Rightarrow> (case map_of block p of Some (JStr s) \<Rightarrow> trim s \<noteq> [] | _ \<Rightarrow> False)
      | _ \<Rightarrow> False)"

definition hasBlock :: "json \<Rightarrow> string \<Rightarrow> bool" where
  "hasBlock verbTenses t =
     (case jsonGet verbTenses t of Some (JObj block) \<Rightarrow> True | Some (JArr xs) \<Rightarrow> True | _ \<Rightarrow> False)"

definition requiredCells :: "(string \<times> string) list" where
  \<comment> \<open>the required (tense, person) cells: six persons in six tenses, none in the imperative\<close>
  "requiredCells = concat (map (\<lambda>t. map (\<lambda>p. (t, p)) (requiredPersons t)) VALIDATE_TENSES)"

definition cellsPresent :: "(string \<times> string) list \<Rightarrow> json \<Rightarrow> bool" where
  \<comment> \<open>each of the listed cells of the entry is present and non-empty\<close>
  "cellsPresent cells v =
     (case jsonGet v ''tenses'' of
        None \<Rightarrow> False
      | Some verbTenses \<Rightarrow> list_all (\<lambda>(t, p). hasForm verbTenses t p) cells)"

definition wellShaped :: "json \<Rightarrow> bool" where
  \<comment> \<open>the entry has a non-empty infinitive and a block, possibly empty, for the imperative\<close>
  "wellShaped v =
     (\<not> falsy (jsonGet v ''infinitive'') \<and>
      (case jsonGet v ''tenses'' of
         None \<Rightarrow> False
       | Some verbTenses \<Rightarrow> hasBlock verbTenses ''imperative''))"

definition sampleBlock :: "string list \<Rightarrow> json" where
  \<comment> \<open>a tense block for the examples: a form for each of the listed persons\<close>
  "sampleBlock ps = JObj (map (\<lambda>p. (p, JStr ''x'')) ps)"

definition sampleTable :: "string list \<Rightarrow> (string \<times> json) list" where
  \<comment> \<open>a table for the examples: all six persons in each of the listed tenses\<close>
  "sampleTable ts = map (\<lambda>t. (t, sampleBlock PERSONS)) ts"

definition sampleEntry :: "string \<Rightarrow> bool \<Rightarrow> (string \<times> json) list \<Rightarrow> json" where
  "sampleEntry name reg table =
     JObj [(''infinitive'', JStr name), (''regular'', JBool reg), (''tenses'', JObj table)]"

definition sixTenses :: "string list" where
  \<comment> \<open>the tenses with required cells\<close>
  "sixTenses = [''present'', ''imperfect'', ''future'', ''conditional'',
                ''subjunctive_present'', ''subjunctive_imperfect'']"

section \<open>The dataset builder (build-verbs.mjs)\<close>

text \<open>
  A selected verb, and an entry of \<open>verbs.json\<close> as the build script writes it: a
  numeric rank, \<open>regular\<close> (always written, so \<open>Some\<close> of a boolean), the group and
  the table from tense to person to form.
\<close>

record candidate =
  infinitive :: string
  translation :: string
  rank :: nat

record verbEntry = candidate +
  regular :: "bool option"
  grp :: string
  tenses :: tenseTable

subsection \<open>Constants and helpers\<close>

definition MAX_VERBS :: nat where
  "MAX_VERBS = 500"

definition IRREGULAR_VERBS :: "string list" where
  \<comment> \<open>\<open>CHR 0xE8\<close> is "e grave"\<close>
  "IRREGULAR_VERBS =
     [''ser'', ''estar'', ''anar'', ''fer'', ''tenir'', ''venir'', ''dir'', ''veure'',
      ''con'' @ [CHR 0xE8] @ ''ixer'', ''creure'', ''poder'', ''voler'', ''saber'', ''haver'',
      ''dur'', ''posar'', ''prendre'', ''treure'', ''moure'', ''riure'', ''caure'', ''valer'',
      ''sortir'', ''seure'', ''asseure'', ''fondre'', ''sorprendre'']"

definition MANUAL_TRANSLATIONS :: "(string \<times> string) list" where
  "MANUAL_TRANSLATIONS =
     [(''ser'', ''to be''), (''estar'', ''to be''), (''anar'', ''to go''), (''fer'', ''to do''),
      (''tenir'', ''to have''), (''venir'', ''to come''), (''dir'', ''to say''),
      (''veure'', ''to see''), (''poder'', ''to be able''), (''voler'', ''to want''),
      (''saber'', ''to know''), (''haver'', ''to have''), (''posar'', ''to put''),
      (''sortir'', ''to go out'')]"

definition getGroup :: "string \<Rightarrow> string" where
  "getGroup name =
     (if endsWith name ''ar'' then ''ar'' else if endsWith name ''ir'' then ''ir'' else ''er'')"

definition isVerbCandidate :: "string \<Rightarrow> bool" where
  "isVerbCandidate word =
     (if word = [] then False
      else if includesUnit word CHR '' '' then False
      else if includesUnit word CHR ''-'' then False
      else if includesUnit word CHR 0x27 then False
      else if endsWith word ''-se'' \<or> endsWith word ''se'' then False
      else endsWith word ''ar'' \<or> endsWith word ''er'' \<or> endsWith word ''re'' \<or>
           endsWith word ''ir'')"

definition normalizeTranslation :: "string \<Rightarrow> string" where
  "normalizeTranslation val =
     (if val = [] then val
      else let cleaned = trim (splitFirst CHR '','' (splitFirst CHR '';'' val))
           in if cleaned = [] then val
              else if startsWith cleaned ''to '' then cleaned
              else ''to '' @ cleaned)"

definition isOrthographic :: "string \<Rightarrow> bool" where
  \<comment> \<open>the test of \<open>word\<close> against the regular expression of the three endings "car",
      "gar" and "c cedilla, a, r" at the end of the input, with the flag \<open>i\<close>: the last
      three code units, case folded, are one of the three endings\<close>
  "isOrthographic word =
     (let w = toLowerCase word
      in endsWith w ''car'' \<or> endsWith w ''gar'' \<or> endsWith w ([CHR 0xE7] @ ''ar''))"

definition truthyOr :: "string option \<Rightarrow> string \<Rightarrow> string" where
  \<comment> \<open>\<open>a || b\<close> for a string that may be \<open>undefined\<close>\<close>
  "truthyOr a b = (case a of None \<Rightarrow> b | Some s \<Rightarrow> if s = [] then b else s)"

subsection \<open>Selecting the verbs\<close>

text \<open>
  The first loop of \<open>main\<close> walks the words of the frequency list; \<open>counter\<close> is its
  variable \<open>rank\<close>. The translation map is the \<open>Map\<close> that \<open>parseFreeDict\<close> returns.
\<close>

record selection =
  selected :: "candidate list"
  missingTranslations :: "string list"
  orthographyCandidates :: "candidate list"
  counter :: nat

definition initialSelection :: selection where
  "initialSelection =
     \<lparr>selected = [], missingTranslations = [], orthographyCandidates = [], counter = 0\<rparr>"

fun selectLoop :: "(string \<rightharpoonup> string) \<Rightarrow> string list \<Rightarrow> selection \<Rightarrow> selection" where
  "selectLoop translationMap [] st = st"
| "selectLoop translationMap (word # rest) st =
     (if length (selected st) \<ge> MAX_VERBS then st
      else if \<not> isVerbCandidate word then selectLoop translationMap rest st
      else case translationMap word of
        None \<Rightarrow>
          selectLoop translationMap rest
            (st\<lparr>missingTranslations := missingTranslations st @ [word]\<rparr>)
      | Some translationRaw \<Rightarrow>
          if translationRaw = [] then
            selectLoop translationMap rest
              (st\<lparr>missingTranslations := missingTranslations st @ [word]\<rparr>)
          else
            let c = \<lparr>infinitive = word, translation = normalizeTranslation translationRaw,
                     rank = counter st + 1\<rparr>
            in if isOrthographic word then
                 selectLoop translationMap rest
                   (st\<lparr>counter := counter st + 1,
                       orthographyCandidates := orthographyCandidates st @ [c]\<rparr>)
               else
                 selectLoop translationMap rest
                   (st\<lparr>counter := counter st + 1, selected := selected st @ [c]\<rparr>))"

fun includeOrthographic :: "candidate list \<Rightarrow> candidate list \<Rightarrow> candidate list" where
  \<comment> \<open>the second loop: the deferred candidates, while there is room\<close>
  "includeOrthographic [] sel = sel"
| "includeOrthographic (c # cs) sel =
     (if length sel \<ge> MAX_VERBS then sel else includeOrthographic cs (sel @ [c]))"

definition selectVerbs :: "(string \<rightharpoonup> string) \<Rightarrow> string list \<Rightarrow> candidate list" where
  \<comment> \<open>the array \<open>selected\<close> after both loops\<close>
  "selectVerbs translationMap freqWords =
     (let st = selectLoop translationMap freqWords initialSelection
      in if length (orthographyCandidates st) > 0
         then includeOrthographic (orthographyCandidates st) (selected st)
         else selected st)"

subsection \<open>Fetching the conjugations\<close>

text \<open>
  \<open>fetchIrregularConjugations\<close> reads the cache and the network and parses the page it
  gets: what it returns or throws is the environment's. It is a parameter that takes the
  state of the environment and the infinitive, and gives the table (\<open>Inr\<close>) or the message
  of the error thrown (\<open>Inl\<close>), with the next state.
\<close>

type_synonym 'w fetcher = "'w \<Rightarrow> string \<Rightarrow> (string + tenseTable) \<times> 'w"

definition buildEntry :: "(string \<rightharpoonup> string) \<Rightarrow> candidate \<Rightarrow> tenseTable \<Rightarrow> verbEntry" where
  \<comment> \<open>the object pushed to \<open>verbs\<close>\<close>
  "buildEntry translationMap c table =
     (let isIrregular = (infinitive c \<in> set IRREGULAR_VERBS \<or> isOrthographic (infinitive c))
      in \<lparr>infinitive = infinitive c,
          translation =
            truthyOr (Some (normalizeTranslation
              (truthyOr (translationMap (infinitive c))
                 (truthyOr (Some (translation c))
                    (truthyOr (map_of MANUAL_TRANSLATIONS (infinitive c)) []))))) [],
          rank = rank c,
          regular = Some (\<not> isIrregular),
          grp = getGroup (infinitive c),
          tenses = table\<rparr>)"

fun conjugationLoop ::
  "'w fetcher \<Rightarrow> (string \<rightharpoonup> string) \<Rightarrow> candidate list \<Rightarrow> 'w \<Rightarrow> verbEntry list \<Rightarrow> string list \<Rightarrow>
   verbEntry list \<times> string list \<times> 'w" where
  \<comment> \<open>\<open>for (const verb of selected) { try { ... } catch (error) { ... } }\<close>, with the
      arrays \<open>verbs\<close> and \<open>missingConjugations\<close>\<close>
  "conjugationLoop fetch translationMap [] w verbs missingConjugations =
     (verbs, missingConjugations, w)"
| "conjugationLoop fetch translationMap (c # rest) w verbs missingConjugations =
     (case fetch w (infinitive c) of
        (Inr table, w') \<Rightarrow>
          conjugationLoop fetch translationMap rest w'
            (verbs @ [buildEntry translationMap c table]) missingConjugations
      | (Inl message, w') \<Rightarrow>
          conjugationLoop fetch translationMap rest w' verbs
            (missingConjugations @ [infinitive c @ '': '' @ message]))"

fun outcomes :: "'w fetcher \<Rightarrow> 'w \<Rightarrow> candidate list \<Rightarrow> (string + tenseTable) list" where
  \<comment> \<open>what the environment answers to the successive calls, verb by verb\<close>
  "outcomes fetch w [] = []"
| "outcomes fetch w (c # rest) =
     (case fetch w (infinitive c) of (r, w') \<Rightarrow> r # outcomes fetch w' rest)"

definition entryOf :: "(string \<rightharpoonup> string) \<Rightarrow> candidate \<times> (string + tenseTable) \<Rightarrow> verbEntry list" where
  \<comment> \<open>the entry written for a verb: none when its fetch failed\<close>
  "entryOf translationMap x =
     (case x of (c, Inr table) \<Rightarrow> [buildEntry translationMap c table] | (c, Inl message) \<Rightarrow> [])"

definition diagnosticOf :: "candidate \<times> (string + tenseTable) \<Rightarrow> string list" where
  \<comment> \<open>the diagnostics line of a verb: none when its fetch succeeded\<close>
  "diagnosticOf x =
     (case x of (c, Inl message) \<Rightarrow> [infinitive c @ '': '' @ message] | (c, Inr table) \<Rightarrow> [])"

definition sampleFetch :: "nat fetcher" where
  \<comment> \<open>an environment for the examples: the state counts the calls, and the page of "ser"
      lacks a form\<close>
  "sampleFetch w name =
     (if name = ''ser'' then (Inl ''Missing tu for ser (future)'', w + 1)
      else (Inr [], w + 1))"

definition ranked :: "selection \<Rightarrow> bool" where
  \<comment> \<open>the invariant of the first loop\<close>
  "ranked st =
     (sorted_wrt (<) (map rank (selected st)) \<and>
      sorted_wrt (<) (map rank (orthographyCandidates st)) \<and>
      (\<forall>c \<in> set (selected st) \<union> set (orthographyCandidates st).
          0 < rank c \<and> rank c \<le> counter st) \<and>
      distinct (map rank (selected st @ orthographyCandidates st)))"

section \<open>Regular expressions of the builder\<close>

text \<open>
  The builder parses with regular expressions. Those it uses are sequences of literals,
  single character classes and starred character classes, greedy or lazy, with at most one
  capture group, which holds a lazy starred class. \<open>rxMatch\<close> matches such a sequence at
  the start of the input the way the backtracking matcher of the language does: a greedy
  star first tries one more character, a lazy star first tries the rest of the sequence.
  It gives the text of the capture group and the input that is left.
\<close>

datatype rx =
  Lit string
| One "char \<Rightarrow> bool"
| Greedy "char \<Rightarrow> bool"
| Lazy "char \<Rightarrow> bool"
| Capture "char \<Rightarrow> bool"

fun rxMatch :: "rx list \<Rightarrow> string \<Rightarrow> (string \<times> string) option" where
  "rxMatch [] s = Some ([], s)"
| "rxMatch (Lit l # rs) s =
     (if startsWith s l then rxMatch rs (drop (length l) s) else None)"
| "rxMatch (One P # rs) s =
     (case s of [] \<Rightarrow> None | c # cs \<Rightarrow> if P c then rxMatch rs cs else None)"
| "rxMatch (Greedy P # rs) s =
     (case s of
        [] \<Rightarrow> rxMatch rs []
      | c # cs \<Rightarrow>
          if P c then
            (case rxMatch (Greedy P # rs) cs of Some r \<Rightarrow> Some r | None \<Rightarrow> rxMatch rs s)
          else rxMatch rs s)"
| "rxMatch (Lazy P # rs) s =
     (case rxMatch rs s of
        Some r \<Rightarrow> Some r
      | None \<Rightarrow>
          (case s of [] \<Rightarrow> None | c # cs \<Rightarrow> if P c then rxMatch (Lazy P # rs) cs else None))"
| "rxMatch (Capture P # rs) s =
     (case rxMatch rs s of
        Some r \<Rightarrow> Some r
      | None \<Rightarrow>
          (case s of
             [] \<Rightarrow> None
           | c # cs \<Rightarrow>
               if P c then
                 (case rxMatch (Capture P # rs) cs of
                    Some (cap, rest) \<Rightarrow> Some (c # cap, rest)
                  | None \<Rightarrow> None)
               else None))"

fun rxExec :: "rx list \<Rightarrow> string \<Rightarrow> (string \<times> string \<times> string) option" where
  \<comment> \<open>the first match in the input, from the left: the matched text, the text of the
      capture group and the input after the match\<close>
  "rxExec rs [] =
     (case rxMatch rs [] of Some (cap, rest) \<Rightarrow> Some ([], cap, rest) | None \<Rightarrow> None)"
| "rxExec rs (c # cs) =
     (case rxMatch rs (c # cs) of
        Some (cap, rest) \<Rightarrow> Some (take (length (c # cs) - length rest) (c # cs), cap, rest)
      | None \<Rightarrow> rxExec rs cs)"

function rxReplaceAll :: "rx list \<Rightarrow> string \<Rightarrow> string \<Rightarrow> string" where
  \<comment> \<open>\<open>s.replace(/.../g, repl)\<close>; after an empty match the next code unit is copied\<close>
  "rxReplaceAll rs repl [] = (case rxMatch rs [] of None \<Rightarrow> [] | Some r \<Rightarrow> repl)"
| "rxReplaceAll rs repl (c # cs) =
     (case rxMatch rs (c # cs) of
        None \<Rightarrow> c # rxReplaceAll rs repl cs
      | Some (cap, rest) \<Rightarrow>
          if length rest < length (c # cs) then repl @ rxReplaceAll rs repl rest
          else repl @ c # rxReplaceAll rs repl cs)"
  by pat_completeness auto
termination
  by (relation "measure (\<lambda>(rs, repl, s). length s)") auto

definition anyUnit :: "char \<Rightarrow> bool" where
  \<comment> \<open>\<open>[\s\S]\<close>\<close>
  "anyUnit c = True"

definition dot :: "char \<Rightarrow> bool" where
  \<comment> \<open>\<open>.\<close>: every code unit but the line terminators LF and CR\<close>
  "dot c = (c \<noteq> CHR 0x0A \<and> c \<noteq> CHR 0x0D)"

definition notGt :: "char \<Rightarrow> bool" where
  \<comment> \<open>\<open>[^>]\<close>\<close>
  "notGt c = (c \<noteq> CHR ''>'')"

definition quoteUnit :: "char \<Rightarrow> bool" where
  \<comment> \<open>the class of the double and the single quote\<close>
  "quoteUnit c = (c = CHR 0x22 \<or> c = CHR 0x27)"

definition stripTags :: "string \<Rightarrow> string" where
  \<comment> \<open>\<open>value.replace(/<[^>]+>/g, "")\<close>\<close>
  "stripTags val = rxReplaceAll [Lit ''<'', One notGt, Greedy notGt, Lit ''>''] [] val"

definition normalizeText :: "string \<Rightarrow> string" where
  \<comment> \<open>\<open>value.replace(/\s+/g, " ").trim()\<close>\<close>
  "normalizeText val = trim (rxReplaceAll [One isSpace, Greedy isSpace] '' '' val)"

subsection \<open>The dictionary parser\<close>

definition entryRegex :: "rx list" where
  \<comment> \<open>an entry element: from its start tag to the first end tag, lazily\<close>
  "entryRegex = [Lit ''<entry'', Lazy anyUnit, Lit ''</entry>'']"

definition orthRegex :: "rx list" where
  "orthRegex = [Lit ''<orth'', Greedy notGt, Lit ''>'', Capture dot, Lit ''</orth>'']"

definition posRegex :: "rx list" where
  "posRegex = [Lit ''<pos'', Greedy notGt, Lit ''>'', Capture dot, Lit ''</pos>'']"

definition quoteRegex :: "rx list" where
  \<comment> \<open>a \<open>cit\<close> element of type "trans", then its first \<open>quote\<close> on one line\<close>
  "quoteRegex =
     [Lit ''<cit'', Greedy notGt, Lit ''type='', One quoteUnit, Lit ''trans'', One quoteUnit,
      Lazy anyUnit, Lit ''<quote'', Greedy notGt, Lit ''>'', Capture dot, Lit ''</quote>'']"

definition capture1 :: "rx list \<Rightarrow> string \<Rightarrow> string option" where
  \<comment> \<open>\<open>entry.match(re)\<close> and its group 1; \<open>None\<close> when there is no match\<close>
  "capture1 rs s = (case rxExec rs s of None \<Rightarrow> None | Some (m, cap, rest) \<Rightarrow> Some cap)"

definition parseEntry :: "string \<Rightarrow> (string \<times> string) option" where
  \<comment> \<open>the body of the loop up to the test on the map: the headword and the raw
      translation of an entry, \<open>None\<close> where the source says \<open>continue\<close>\<close>
  "parseEntry entry =
     (case capture1 orthRegex entry of
        None \<Rightarrow> None
      | Some orth \<Rightarrow>
          let headword = normalizeText (stripTags orth) in
          if headword = [] then None
          else case capture1 posRegex entry of
            None \<Rightarrow> None
          | Some posText \<Rightarrow>
              let pos = toLowerCase (normalizeText (stripTags posText)) in
              if \<not> (pos = ''v'' \<or> startsWith pos ''verb'') then None
              else case capture1 quoteRegex entry of
                None \<Rightarrow> None
              | Some quoteText \<Rightarrow>
                  let rawTranslation = normalizeText (stripTags quoteText) in
                  if rawTranslation = [] then None
                  else Some (headword, rawTranslation))"

definition setFirst :: "string \<times> string \<Rightarrow> (string \<rightharpoonup> string) \<Rightarrow> (string \<rightharpoonup> string)" where
  \<comment> \<open>\<open>if (!map.has(lemma)) map.set(lemma, rawTranslation)\<close>\<close>
  "setFirst kv m = (if m (fst kv) \<noteq> None then m else m(fst kv \<mapsto> snd kv))"

text \<open>
  The loop \<open>while ((match = entryRegex.exec(teiText)) !== null) { ... }\<close>: each call of
  \<open>exec\<close> starts where the last match ended. The body of the loop is a parameter, a
  function of the matched text and of the state the loop carries. The loop ends, since a
  match of \<open>entryRegex\<close> is never empty.
\<close>

function execLoop :: "(string \<Rightarrow> 'a \<Rightarrow> 'a) \<Rightarrow> string \<Rightarrow> 'a \<Rightarrow> 'a" where
  "execLoop body teiText acc =
     (case rxExec entryRegex teiText of
        None \<Rightarrow> acc
      | Some (entry, cap, rest) \<Rightarrow> execLoop body rest (body entry acc))"
  by pat_completeness auto
termination
proof (relation "measure (\<lambda>(body, t, acc). length t)")
  show "wf (measure (\<lambda>(body, t, acc). length t))" by simp
next
  fix body :: "string \<Rightarrow> 'a \<Rightarrow> 'a" and teiText :: string and acc :: 'a
    and x2 entry y cap rest
  assume ex: "rxExec entryRegex teiText = Some x2" and x2: "(entry, y) = x2"
    and y: "(cap, rest) = y"
  have match_le: "length r \<le> length s" if "rxMatch rs s = Some (c, r)" for rs s c r
    using that
  proof (induction rs s arbitrary: c r rule: rxMatch.induct)
    case (1 s)
    then show ?case by simp
  next
    case (2 l rs s)
    from "2.prems" have sw: "startsWith s l" and m: "rxMatch rs (drop (length l) s) = Some (c, r)"
      by (simp_all split: if_splits)
    from "2.IH" [OF sw m] show ?case by simp
  next
    case (3 P rs s)
    show ?case
    proof (cases s)
      case Nil
      with 3 show ?thesis by simp
    next
      case (Cons a cs)
      with "3.prems" have "P a" "rxMatch rs cs = Some (c, r)" by (simp_all split: if_splits)
      with "3.IH" Cons have "length r \<le> length cs" by blast
      with Cons show ?thesis by simp
    qed
  next
    case (4 P rs s)
    show ?case
    proof (cases s)
      case Nil
      with "4.prems" have "rxMatch rs [] = Some (c, r)" by simp
      with "4.IH"(1) [OF Nil] Nil show ?thesis by simp
    next
      case (Cons a cs)
      show ?thesis
      proof (cases "P a")
        case False
        with "4.prems" Cons have "rxMatch rs s = Some (c, r)" by simp
        with "4.IH"(4) [OF Cons False] show ?thesis by simp
      next
        case True
        show ?thesis
        proof (cases "rxMatch (Greedy P # rs) cs")
          case None
          with "4.prems" Cons True have "rxMatch rs s = Some (c, r)" by simp
          with "4.IH"(3) [OF Cons True None] show ?thesis by simp
        next
          case (Some p)
          with "4.prems" Cons True have "rxMatch (Greedy P # rs) cs = Some (c, r)" by simp
          from "4.IH"(2) [OF Cons True this] Cons show ?thesis by simp
        qed
      qed
    qed
  next
    case (5 P rs s)
    show ?case
    proof (cases "rxMatch rs s")
      case (Some p)
      with "5.prems" have "rxMatch rs s = Some (c, r)" by simp
      then show ?thesis by (rule "5.IH"(1))
    next
      case None
      show ?thesis
      proof (cases s)
        case Nil
        with None "5.prems" show ?thesis by simp
      next
        case (Cons a cs)
        with None "5.prems" have pa: "P a" and m: "rxMatch (Lazy P # rs) cs = Some (c, r)"
          by (simp_all split: if_splits)
        from "5.IH"(2) [OF None Cons pa m] Cons show ?thesis by simp
      qed
    qed
  next
    case (6 P rs s)
    show ?case
    proof (cases "rxMatch rs s")
      case (Some p)
      with "6.prems" have "rxMatch rs s = Some (c, r)" by simp
      then show ?thesis by (rule "6.IH"(1))
    next
      case None
      show ?thesis
      proof (cases s)
        case Nil
        with None "6.prems" show ?thesis by simp
      next
        case (Cons a cs)
        with None "6.prems" obtain c' where pa: "P a"
          and m: "rxMatch (Capture P # rs) cs = Some (c', r)"
          by (auto split: if_splits option.splits)
        from "6.IH"(2) [OF None Cons pa m] Cons show ?thesis by simp
      qed
    qed
  qed
  have lit_gen: "length r + length l \<le> length s"
    if "rxMatch (Lit l # rs) s = Some (c, r)" for l rs s c r
  proof -
    from that have sw: "startsWith s l" and rm: "rxMatch rs (drop (length l) s) = Some (c, r)"
      by (simp_all split: if_splits)
    from sw have "length (take (length l) s) = length l" by (simp add: startsWith_def)
    then have "length l \<le> length s" by simp
    moreover from match_le [OF rm] have "length r \<le> length s - length l" by simp
    ultimately show ?thesis by simp
  qed
  have lit: "length r < length s"
    if "rxMatch entryRegex s = Some (c, r)" for s c r
    using lit_gen [OF that [unfolded entryRegex_def]] by simp
  have exec_lt: "length r < length s"
    if "rxExec entryRegex s = Some (e, c, r)" for s e c r
    using that
  proof (induction s)
    case Nil
    then show ?case by (auto simp: entryRegex_def startsWith_def split: option.splits)
  next
    case (Cons a s)
    show ?case
    proof (cases "rxMatch entryRegex (a # s)")
      case None
      with Cons have "length r < length s" by simp
      then show ?thesis by simp
    next
      case (Some p)
      with Cons.prems have "rxMatch entryRegex (a # s) = Some (c, r)"
        by (cases p) simp
      then show ?thesis by (rule lit)
    qed
  qed
  from ex x2 y have "rxExec entryRegex teiText = Some (entry, cap, rest)" by simp
  then have "length rest < length teiText" by (rule exec_lt)
  then show "((body, rest, body entry acc), body, teiText, acc)
        \<in> measure (\<lambda>(body, t, acc). length t)" by simp
qed

declare execLoop.simps [simp del]

definition parseStep :: "string \<Rightarrow> (string \<rightharpoonup> string) \<Rightarrow> (string \<rightharpoonup> string)" where
  \<comment> \<open>the body of the loop of \<open>parseFreeDict\<close>\<close>
  "parseStep entry m = (case parseEntry entry of None \<Rightarrow> m | Some kv \<Rightarrow> setFirst kv m)"

definition parseFreeDict :: "string \<Rightarrow> (string \<rightharpoonup> string)" where
  "parseFreeDict teiText = execLoop parseStep teiText Map.empty"

definition entryMatches :: "string \<Rightarrow> string list" where
  \<comment> \<open>the entries of the input, in the order in which the loop meets them\<close>
  "entryMatches teiText = execLoop (\<lambda>entry acc. acc @ [entry]) teiText []"

definition sampleTei :: "string \<Rightarrow> string \<Rightarrow> string \<Rightarrow> string" where
  \<comment> \<open>an entry of the dictionary for the examples: headword, part of speech, translation\<close>
  "sampleTei headword pos quote =
     ''<entry><form><orth>'' @ headword @ ''</orth></form><gramGrp><pos>'' @ pos @
     ''</pos></gramGrp><sense><cit type='' @ [CHR 0x22] @ ''trans'' @ [CHR 0x22] @
     ''><quote>'' @ quote @ ''</quote></cit></sense></entry>''"

section \<open>Regular present-tense forms\<close>

text \<open>
  Claim C7. The regular present-tense generator, with the group derived from the
  infinitive's ending by \<open>getVerbGroup\<close>, gives for the person "jo": "parlo" for
  "parlar" (group "ar"), "dormo" for "dormir" (group "ir") and "perdo" for "perdre"
  (group "er").
\<close>

theorem regularPresent_jo_examples:
  "getVerbGroup ''parlar'' = ''ar'' \<and>
   regularPresent ''parlar'' (getVerbGroup ''parlar'') ''jo'' = ''parlo'' \<and>
   getVerbGroup ''dormir'' = ''ir'' \<and>
   regularPresent ''dormir'' (getVerbGroup ''dormir'') ''jo'' = ''dormo'' \<and>
   getVerbGroup ''perdre'' = ''er'' \<and>
   regularPresent ''perdre'' (getVerbGroup ''perdre'') ''jo'' = ''perdo''"
  by (simp add: getVerbGroup_def regularPresent_def endsWith_def slice_0_m2_def formOf_def)

section \<open>Per-character status\<close>

lemma toLowerCase_unit_idem: "toLowerCase_unit (toLowerCase_unit c) = toLowerCase_unit c"
proof -
  have "\<And>n::nat. n < 224 \<Longrightarrow> of_char (char_of (n + 32)) = n + 32"
    by (simp add: of_char_of)
  thus ?thesis
    unfolding toLowerCase_unit_def Let_def
    by (auto simp: of_char_of)
qed

lemma toLowerCase_idem: "toLowerCase (toLowerCase s) = toLowerCase s"
  by (simp add: toLowerCase_def toLowerCase_unit_idem)

text \<open>
  Claim C10, amended. For a typed character (a non-empty string) and an expected one, the
  test on the hint comes first: at a hinted position the status is "yellow". The status is
  "green" exactly when the position is not hinted and the two are equal
  case-insensitively; and at a position that is not hinted, when they differ
  case-insensitively and are equal after stripping the diacritics, as a typed "a" against
  an expected "a grave", the status is "yellow", so never "red".
\<close>

theorem getStatus_cases:
  assumes "typedChar \<noteq> []"
  shows "(getStatus typedChar expectedChar isHinted = ''green''
            \<longleftrightarrow> \<not> isHinted \<and> toLowerCase typedChar = toLowerCase expectedChar) \<and>
         (\<not> isHinted \<and> toLowerCase typedChar \<noteq> toLowerCase expectedChar \<and>
            stripAccents (toLowerCase typedChar) = stripAccents (toLowerCase expectedChar)
            \<longrightarrow> getStatus typedChar expectedChar isHinted = ''yellow'') \<and>
         (isHinted \<longrightarrow> getStatus typedChar expectedChar isHinted = ''yellow'') \<and>
         getStatus ''a'' [CHR 0xE0] False = ''yellow''"
proof -
  have ex: "getStatus ''a'' [CHR 0xE0] False = ''yellow''"
    by (simp add: getStatus_def toLowerCase_def toLowerCase_unit_def baseChar_def
        stripAccents_def nfdBase_def)
  show ?thesis
    using assms ex by (simp add: getStatus_def Let_def baseChar_def toLowerCase_idem)
qed

theorem getStatus_cases_witness:
  "getStatus ''A'' ''a'' False = ''green'' \<and>
   getStatus ''a'' [CHR 0xE0] False = ''yellow'' \<and>
   getStatus ''b'' ''a'' True = ''yellow''"
proof -
  have l1: "toLowerCase ''A'' = toLowerCase ''a''"
    by code_simp
  have l2: "toLowerCase ''a'' \<noteq> toLowerCase [CHR 0xE0]"
    by (simp add: toLowerCase_def toLowerCase_unit_def)
  have l3: "stripAccents (toLowerCase ''a'') = stripAccents (toLowerCase [CHR 0xE0])"
    by (simp add: toLowerCase_def toLowerCase_unit_def stripAccents_def nfdBase_def)
  show ?thesis
    using getStatus_cases [where typedChar = "''A''" and isHinted = False
          and expectedChar = "''a''"]
      getStatus_cases [where typedChar = "''a''" and isHinted = False
          and expectedChar = "[CHR 0xE0]"]
      getStatus_cases [where typedChar = "''b''" and isHinted = True
          and expectedChar = "''a''"] l1 l2 l3
    by simp
qed

text \<open>
  Claim C10, as stated, fails in its first clause: at a hinted position a typed character
  equal to the expected one has the status "yellow", not "green".
\<close>

theorem getStatus_hinted_counterexample:
  "toLowerCase ''a'' = toLowerCase ''a'' \<and>
   getStatus ''a'' ''a'' True = ''yellow'' \<and>
   getStatus ''a'' ''a'' True \<noteq> ''green''"
  by (simp add: getStatus_def)

section \<open>Picking the next prompt\<close>

lemma promptAt_filter:
  "promptAt v t p lastKey = filter (\<lambda>q. \<not> isLast lastKey (key q)) (promptAt v t p None)"
  by (simp add: promptAt_def Let_def isLast_def)

lemma concat_map_filter:
  "(\<And>x. f x = filter P (g x)) \<Longrightarrow> concat (map f xs) = filter P (concat (map g xs))"
  by (induction xs) simp_all

lemma getAvailablePrompts_filter:
  "getAvailablePrompts fv ep et lastKey
     = filter (\<lambda>q. \<not> isLast lastKey (key q)) (getAvailablePrompts fv ep et None)"
proof -
  let ?P = "\<lambda>q. \<not> isLast lastKey (key q)"
  have inner: "concat (map (\<lambda>p. promptAt v t p lastKey) ps)
                 = filter ?P (concat (map (\<lambda>p. promptAt v t p None) ps))" for v t ps
    by (rule concat_map_filter) (rule promptAt_filter)
  have mid: "concat (map (\<lambda>t. concat (map (\<lambda>p. promptAt v t p lastKey) ps)) ts)
               = filter ?P (concat (map (\<lambda>t. concat (map (\<lambda>p. promptAt v t p None) ps)) ts))"
    for v ps ts
    by (rule concat_map_filter) (rule inner)
  have outer: "concat (map (\<lambda>v. concat (map (\<lambda>t. concat (map (\<lambda>p. promptAt v t p lastKey) ps)) ts)) vs)
     = filter ?P (concat (map (\<lambda>v. concat (map (\<lambda>t. concat (map (\<lambda>p. promptAt v t p None) ps)) ts)) vs))"
    for ps ts vs
    by (rule concat_map_filter) (rule mid)
  show ?thesis
    unfolding getAvailablePrompts_def Let_def
    by (simp only: outer if_distrib [of "filter ?P"] filter.simps)
qed

lemma promptAt_key: "q \<in> set (promptAt v t p lastKey) \<Longrightarrow> key q \<noteq> []"
  by (auto simp: promptAt_def Let_def split: if_splits)

lemma getAvailablePrompts_key:
  "q \<in> set (getAvailablePrompts fv ep et lastKey) \<Longrightarrow> key q \<noteq> []"
  by (auto simp: getAvailablePrompts_def Let_def promptAt_key split: if_splits)

lemma element_mem: "element xs i = Some x \<Longrightarrow> x \<in> set xs"
  by (auto simp: element_def split: if_splits)

lemma getAvailablePrompts_no_verbs: "getAvailablePrompts [] ep et lastKey = []"
  by (simp add: getAvailablePrompts_def Let_def)

lemma pickNextPrompt_conv:
  "pickNextPrompt pick verbs ep et vf lmt lastKey =
     (let prompts = filter (\<lambda>q. \<not> isLast lastKey (key q)) (validInstances verbs ep et vf lmt)
      in if prompts = [] then None else element prompts (pick (length prompts)))"
proof (cases "getFilteredVerbs verbs vf lmt = []")
  case True
  then show ?thesis
    by (simp add: pickNextPrompt_def validInstances_def getAvailablePrompts_no_verbs)
next
  case False
  then show ?thesis
    by (simp add: pickNextPrompt_def validInstances_def Let_def
        getAvailablePrompts_filter [of _ _ _ lastKey])
qed

lemma getFilteredVerbs_subset:
  "set (getFilteredVerbs verbs vf lmt) \<subseteq> set (typeFiltered verbs vf)"
proof
  fix v assume "v \<in> set (getFilteredVerbs verbs vf lmt)"
  then obtain i where m: "(v, i) \<in> set (zip verbs [0 ..< length verbs])"
    and ok: "\<not> (appVerb.regular v \<noteq> Some False \<and> \<not> flag vf ''regular'')"
      "\<not> (\<not> appVerb.regular v \<noteq> Some False \<and> \<not> flag vf ''irregular'')"
    by (auto simp: getFilteredVerbs_def Let_def split: if_splits)
  from m have "v \<in> set verbs" by (rule set_zip_leftD)
  with ok show "v \<in> set (typeFiltered verbs vf)"
    by (auto simp: typeFiltered_def Let_def)
qed

lemma validInstances_empty:
  assumes "enabledList PERSONS ep = [] \<or> enabledList TENSES et = [] \<or>
           typeFiltered verbs vf = [] \<or> getFilteredVerbs verbs vf lmt = []"
  shows "validInstances verbs ep et vf lmt = []"
proof -
  from assms consider "enabledList PERSONS ep = [] \<or> enabledList TENSES et = []"
    | "getFilteredVerbs verbs vf lmt = []"
    using getFilteredVerbs_subset [of verbs vf lmt] by fastforce
  then show ?thesis
  proof cases
    case 1
    then show ?thesis by (auto simp: validInstances_def getAvailablePrompts_def)
  next
    case 2
    then show ?thesis by (simp add: validInstances_def getAvailablePrompts_no_verbs)
  qed
qed

lemma promptAt_None_empty: "promptAt v t p None = [] \<longleftrightarrow> getConjugation v t p = []"
  by (simp add: promptAt_def Let_def isLast_def)

lemma validInstances_empty_iff:
  "validInstances verbs ep et vf lmt = [] \<longleftrightarrow>
     enabledList PERSONS ep = [] \<or> enabledList TENSES et = [] \<or>
     (\<forall>v \<in> set (getFilteredVerbs verbs vf lmt). \<forall>t \<in> set (enabledList TENSES et).
        \<forall>p \<in> set (enabledList PERSONS ep). getConjugation v t p = [])"
  by (auto simp: validInstances_def getAvailablePrompts_def Let_def promptAt_None_empty)

text \<open>
  Claim C5. When there is no valid instance, as when no person is enabled, no tense is
  enabled or no verb passes the verb-type filter, \<open>pickNextPrompt\<close> returns
  \<open>null\<close>, for every value of the random source and every \<open>lastKey\<close>. There
  is no valid instance exactly when no person is enabled, no tense is enabled, or no verb
  that passes the filters stores a form for an enabled tense and person. The function is
  total: it has no other outcome, so nothing is thrown.
\<close>

theorem pickNextPrompt_no_instances:
  "(enabledList PERSONS ep = [] \<or> enabledList TENSES et = [] \<or>
    typeFiltered verbs vf = [] \<or> getFilteredVerbs verbs vf lmt = []
      \<longrightarrow> validInstances verbs ep et vf lmt = []) \<and>
   (validInstances verbs ep et vf lmt = [] \<longleftrightarrow>
      enabledList PERSONS ep = [] \<or> enabledList TENSES et = [] \<or>
      (\<forall>v \<in> set (getFilteredVerbs verbs vf lmt). \<forall>t \<in> set (enabledList TENSES et).
         \<forall>p \<in> set (enabledList PERSONS ep). getConjugation v t p = [])) \<and>
   (validInstances verbs ep et vf lmt = []
      \<longrightarrow> pickNextPrompt pick verbs ep et vf lmt lastKey
            = None)"
proof (intro conjI)
  show "enabledList PERSONS ep = [] \<or> enabledList TENSES et = [] \<or>
    typeFiltered verbs vf = [] \<or> getFilteredVerbs verbs vf lmt = []
      \<longrightarrow> validInstances verbs ep et vf lmt = []"
    using validInstances_empty [of ep et verbs vf lmt] by blast
  show "validInstances verbs ep et vf lmt = [] \<longleftrightarrow>
      enabledList PERSONS ep = [] \<or> enabledList TENSES et = [] \<or>
      (\<forall>v \<in> set (getFilteredVerbs verbs vf lmt). \<forall>t \<in> set (enabledList TENSES et).
         \<forall>p \<in> set (enabledList PERSONS ep). getConjugation v t p = [])"
    by (rule validInstances_empty_iff)
  show "validInstances verbs ep et vf lmt = []
      \<longrightarrow> pickNextPrompt pick verbs ep et vf lmt lastKey = None"
    by (simp add: pickNextPrompt_conv)
qed

theorem pickNextPrompt_no_instances_witness:
  "typeFiltered [sampleVerb ''parlar'' 2 True] [(''regular'', False), (''irregular'', True)] = [] \<and>
   validInstances [sampleVerb ''parlar'' 2 True] (enabledPersons initialState)
     (enabledTenses initialState) [(''regular'', False), (''irregular'', True)] 300 = [] \<and>
   pickNextPrompt pickFirst [sampleVerb ''parlar'' 2 True] (enabledPersons initialState)
     (enabledTenses initialState) [(''regular'', False), (''irregular'', True)] 300
     (Some ''parlar-jo-present'') = None"
proof -
  have h: "typeFiltered [sampleVerb ''parlar'' 2 True]
             [(''regular'', False), (''irregular'', True)] = []"
    by (simp add: typeFiltered_def sampleVerb_def flag_def)
  note t = pickNextPrompt_no_instances [of "enabledPersons initialState"
      "enabledTenses initialState" "[sampleVerb ''parlar'' 2 True]"
      "[(''regular'', False), (''irregular'', True)]" 300 pickFirst "Some ''parlar-jo-present''"]
  from t h show ?thesis by blast
qed

text \<open>
  Claim C1. For every dataset, filter state and \<open>lastKey\<close>, an instance returned by
  \<open>pickNextPrompt\<close> is a valid instance whose key differs from \<open>lastKey\<close>,
  whatever the number of valid instances; when exactly one valid instance exists and its
  key is \<open>lastKey\<close>, the result is \<open>null\<close>; and when a valid instance with
  another key exists, and the random index is within the list, an instance is returned.
\<close>

theorem pickNextPrompt_skips_last:
  "(pickNextPrompt pick verbs ep et vf lmt lastKey = Some q
      \<longrightarrow> lastKey \<noteq> Some (key q) \<and>
          q \<in> set (validInstances verbs ep et vf lmt)) \<and>
   (validInstances verbs ep et vf lmt = [q'] \<and>
    lastKey = Some (key q')
      \<longrightarrow> pickNextPrompt pick verbs ep et vf lmt lastKey
            = None) \<and>
   ((\<exists>r \<in> set (validInstances verbs ep et vf lmt).
        lastKey \<noteq> Some (key r)) \<and> (\<forall>n > 0. pick n < n)
      \<longrightarrow> pickNextPrompt pick verbs ep et vf lmt lastKey
            \<noteq> None)"
proof -
  let ?valid = "validInstances verbs ep et vf lmt"
  let ?prompts = "filter (\<lambda>q. \<not> isLast lastKey (key q)) ?valid"
  let ?res = "pickNextPrompt pick verbs ep et vf lmt lastKey"
  have res: "?res = (if ?prompts = [] then None else element ?prompts (pick (length ?prompts)))"
    by (simp add: pickNextPrompt_conv Let_def)
  have nonempty: "key r \<noteq> []" if "r \<in> set ?valid" for r
    using that unfolding validInstances_def by (rule getAvailablePrompts_key)
  have last: "isLast lastKey (key r) \<longleftrightarrow> lastKey = Some (key r)" if "r \<in> set ?valid" for r
    using nonempty [OF that] by (auto simp: isLast_def)
  have a: "lastKey \<noteq> Some (key q) \<and> q \<in> set ?valid" if "?res = Some q"
  proof -
    from that res have "element ?prompts (pick (length ?prompts)) = Some q"
      by (simp split: if_splits)
    then have "q \<in> set ?prompts" by (rule element_mem)
    then have "q \<in> set ?valid" "\<not> isLast lastKey (key q)" by simp_all
    with last show ?thesis by simp
  qed
  have b: "?res = None" if "?valid = [q']" "lastKey = Some (key q')"
  proof -
    from that(1) have "q' \<in> set ?valid" by simp
    from last [OF this] that(2) have "isLast lastKey (key q')" by simp
    with that(1) have "?prompts = []" by simp
    with res show ?thesis by simp
  qed
  have c: "?res \<noteq> None" if "\<exists>r \<in> set ?valid. lastKey \<noteq> Some (key r)" "\<forall>n > 0. pick n < n"
  proof -
    from that(1) obtain r where r: "r \<in> set ?valid" "lastKey \<noteq> Some (key r)" by blast
    with last have mem: "r \<in> set ?prompts" by simp
    have ne: "?prompts \<noteq> []"
    proof
      assume "?prompts = []"
      with mem show False by simp
    qed
    then have "0 < length ?prompts" by simp
    with that(2) have "pick (length ?prompts) < length ?prompts" by blast
    with ne res show ?thesis by (simp add: element_def)
  qed
  show ?thesis
  proof (intro conjI impI)
    assume "?res = Some q"
    then show "lastKey \<noteq> Some (key q)" "q \<in> set ?valid" using a by simp_all
  next
    assume "?valid = [q'] \<and> lastKey = Some (key q')"
    then show "?res = None" using b by simp
  next
    assume "(\<exists>r \<in> set ?valid. lastKey \<noteq> Some (key r)) \<and> (\<forall>n > 0. pick n < n)"
    then show "?res \<noteq> None" using c by simp
  qed
qed

theorem pickNextPrompt_skips_last_witness:
  "validInstances [sampleVerb ''parlar'' 2 True] [(''jo'', True)] [(''present'', True)]
     [(''regular'', True)] 300
     = [\<lparr>verb = sampleVerb ''parlar'' 2 True, person = ''jo'', tense = ''present'',
         key = ''parlar-jo-present''\<rparr>] \<and>
   pickNextPrompt pickFirst [sampleVerb ''parlar'' 2 True] [(''jo'', True)] [(''present'', True)]
     [(''regular'', True)] 300 (Some ''parlar-jo-present'') = None \<and>
   pickNextPrompt pickFirst [sampleVerb ''parlar'' 2 True] [(''jo'', True), (''tu'', True)]
     [(''present'', True)] [(''regular'', True)] 300 (Some ''parlar-jo-present'')
     = Some \<lparr>verb = sampleVerb ''parlar'' 2 True, person = ''tu'', tense = ''present'',
              key = ''parlar-tu-present''\<rparr> \<and>
   Some ''parlar-jo-present'' \<noteq> Some ''parlar-tu-present''"
proof -
  let ?v = "sampleVerb ''parlar'' 2 True"
  let ?q = "\<lparr>verb = ?v, person = ''jo'', tense = ''present'', key = ''parlar-jo-present''\<rparr>"
  let ?r = "\<lparr>verb = ?v, person = ''tu'', tense = ''present'', key = ''parlar-tu-present''\<rparr>"
  have one: "validInstances [?v] [(''jo'', True)] [(''present'', True)] [(''regular'', True)] 300
               = [?q]"
    by code_simp
  have two: "pickNextPrompt pickFirst [?v] [(''jo'', True), (''tu'', True)] [(''present'', True)]
               [(''regular'', True)] 300 (Some ''parlar-jo-present'') = Some ?r"
    by code_simp
  have k: "Some ''parlar-jo-present'' = Some (key ?q)" by simp
  note t1 = pickNextPrompt_skips_last [of pickFirst "[?v]" "[(''jo'', True)]"
      "[(''present'', True)]" "[(''regular'', True)]" 300 "Some ''parlar-jo-present''" ?r ?q]
  note t2 = pickNextPrompt_skips_last [of pickFirst "[?v]" "[(''jo'', True), (''tu'', True)]"
      "[(''present'', True)]" "[(''regular'', True)]" 300 "Some ''parlar-jo-present''" ?r ?q]
  from t1 one k have a: "pickNextPrompt pickFirst [?v] [(''jo'', True)] [(''present'', True)]
     [(''regular'', True)] 300 (Some ''parlar-jo-present'') = None" by blast
  from t2 two have b: "Some ''parlar-jo-present'' \<noteq> Some (key ?r)" by blast
  from one a two b show ?thesis by simp
qed

section \<open>Toggling a filter\<close>

lemma hasAvailablePrompts_conv:
  "hasAvailablePrompts verbs ep et vf lmt \<longleftrightarrow> validInstances verbs ep et vf lmt \<noteq> []"
  by (simp add: hasAvailablePrompts_def validInstances_def Let_def getAvailablePrompts_no_verbs)

lemma typeFiltered_enabled:
  assumes "typeFiltered verbs vf \<noteq> []"
  shows "enabledList VERB_TYPES vf \<noteq> []"
proof -
  from assms obtain v where "v \<in> set (typeFiltered verbs vf)"
    by (cases "typeFiltered verbs vf") auto
  then have "flag vf ''regular'' \<or> flag vf ''irregular''"
    by (auto simp: typeFiltered_def Let_def split: if_splits)
  then show ?thesis
    by (auto simp: enabledList_def VERB_TYPES_def)
qed

lemma hasAvailablePrompts_enabled:
  assumes "hasAvailablePrompts verbs ep et vf lmt"
  shows "enabledList PERSONS ep \<noteq> []" "enabledList TENSES et \<noteq> []"
    "enabledList VERB_TYPES vf \<noteq> []"
proof -
  from assms have ne: "validInstances verbs ep et vf lmt \<noteq> []"
    by (simp add: hasAvailablePrompts_conv)
  with validInstances_empty [of ep et verbs vf lmt]
  show "enabledList PERSONS ep \<noteq> []" "enabledList TENSES et \<noteq> []" by blast+
  from ne validInstances_empty [of ep et verbs vf lmt] have "typeFiltered verbs vf \<noteq> []"
    by blast
  then show "enabledList VERB_TYPES vf \<noteq> []" by (rule typeFiltered_enabled)
qed

lemma hasAvailablePrompts_none_enabled:
  "enabledList PERSONS ep = [] \<Longrightarrow> \<not> hasAvailablePrompts verbs ep et vf lmt"
  "enabledList TENSES et = [] \<Longrightarrow> \<not> hasAvailablePrompts verbs ep et vf lmt"
  "enabledList VERB_TYPES vf = [] \<Longrightarrow> \<not> hasAvailablePrompts verbs ep et vf lmt"
  using hasAvailablePrompts_enabled [of verbs ep et vf lmt] by blast+

lemma togglePerson_refused:
  assumes "flag (enabledPersons st) p"
    and "\<not> hasAvailablePrompts verbs (AList.update p False (enabledPersons st))
             (enabledTenses st) (verbFilters st) (verbLimit st)"
  shows "filters (togglePerson verbs p st) = filters st"
  using assms by (simp add: togglePerson_def Let_def filters_def)

lemma toggleTense_refused:
  assumes "flag (enabledTenses st) t"
    and "\<not> hasAvailablePrompts verbs (enabledPersons st)
             (AList.update t False (enabledTenses st)) (verbFilters st) (verbLimit st)"
  shows "filters (toggleTense verbs t st) = filters st"
  using assms by (simp add: toggleTense_def Let_def filters_def)

lemma toggleVerbFilter_refused:
  assumes "flag (verbFilters st) k"
    and "\<not> hasAvailablePrompts verbs (enabledPersons st) (enabledTenses st)
             (AList.update k False (verbFilters st)) (verbLimit st)"
  shows "filters (toggleVerbFilter verbs k st) = filters st"
  using assms by (simp add: toggleVerbFilter_def Let_def filters_def)

lemma togglePerson_oneEnabled:
  assumes "oneEnabled st"
  shows "oneEnabled (togglePerson verbs p st)"
proof -
  let ?next = "AList.update p (\<not> flag (enabledPersons st) p) (enabledPersons st)"
  let ?has = "hasAvailablePrompts verbs ?next (enabledTenses st) (verbFilters st) (verbLimit st)"
  consider "togglePerson verbs p st = st"
    | "togglePerson verbs p st = st\<lparr>configError := True\<rparr>"
    | "?has" "togglePerson verbs p st = st\<lparr>enabledPersons := ?next, configError := False\<rparr>"
  proof (cases "flag (enabledPersons st) p \<and> enabledCount (enabledPersons st) = 1")
    case True
    then have "togglePerson verbs p st = st" by (simp add: togglePerson_def)
    then show ?thesis by (rule that(1))
  next
    case False
    show ?thesis
    proof (cases "?has")
      case True
      with False
      have "togglePerson verbs p st = st\<lparr>enabledPersons := ?next, configError := False\<rparr>"
        unfolding togglePerson_def Let_def by auto
      with True show ?thesis by (rule that(3))
    next
      case nohas: False
      with False have "togglePerson verbs p st = st\<lparr>configError := True\<rparr>"
        unfolding togglePerson_def Let_def by auto
      then show ?thesis by (rule that(2))
    qed
  qed
  then show ?thesis
  proof cases
    case 1
    with assms show ?thesis by simp
  next
    case 2
    with assms show ?thesis by (simp add: oneEnabled_def)
  next
    case 3
    from hasAvailablePrompts_enabled [OF 3(1)] 3(2) show ?thesis
      by (simp add: oneEnabled_def)
  qed
qed

lemma toggleTense_oneEnabled:
  assumes "oneEnabled st"
  shows "oneEnabled (toggleTense verbs t st)"
proof -
  let ?next = "AList.update t (\<not> flag (enabledTenses st) t) (enabledTenses st)"
  let ?has = "hasAvailablePrompts verbs (enabledPersons st) ?next (verbFilters st) (verbLimit st)"
  consider "toggleTense verbs t st = st"
    | "toggleTense verbs t st = st\<lparr>configError := True\<rparr>"
    | "?has" "toggleTense verbs t st = st\<lparr>enabledTenses := ?next, configError := False\<rparr>"
  proof (cases "flag (enabledTenses st) t \<and> enabledCount (enabledTenses st) = 1")
    case True
    then have "toggleTense verbs t st = st" by (simp add: toggleTense_def)
    then show ?thesis by (rule that(1))
  next
    case False
    show ?thesis
    proof (cases "?has")
      case True
      with False
      have "toggleTense verbs t st = st\<lparr>enabledTenses := ?next, configError := False\<rparr>"
        unfolding toggleTense_def Let_def by auto
      with True show ?thesis by (rule that(3))
    next
      case nohas: False
      with False have "toggleTense verbs t st = st\<lparr>configError := True\<rparr>"
        unfolding toggleTense_def Let_def by auto
      then show ?thesis by (rule that(2))
    qed
  qed
  then show ?thesis
  proof cases
    case 1
    with assms show ?thesis by simp
  next
    case 2
    with assms show ?thesis by (simp add: oneEnabled_def)
  next
    case 3
    from hasAvailablePrompts_enabled [OF 3(1)] 3(2) show ?thesis
      by (simp add: oneEnabled_def)
  qed
qed

lemma toggleVerbFilter_oneEnabled:
  assumes "oneEnabled st"
  shows "oneEnabled (toggleVerbFilter verbs k st)"
proof -
  let ?next = "AList.update k (\<not> flag (verbFilters st) k) (verbFilters st)"
  let ?has = "hasAvailablePrompts verbs (enabledPersons st) (enabledTenses st) ?next (verbLimit st)"
  consider "toggleVerbFilter verbs k st = st"
    | "toggleVerbFilter verbs k st = st\<lparr>configError := True\<rparr>"
    | "?has" "toggleVerbFilter verbs k st = st\<lparr>verbFilters := ?next, configError := False\<rparr>"
  proof (cases "flag (verbFilters st) k \<and> enabledCount (verbFilters st) = 1")
    case True
    then have "toggleVerbFilter verbs k st = st" by (simp add: toggleVerbFilter_def)
    then show ?thesis by (rule that(1))
  next
    case False
    show ?thesis
    proof (cases "?has")
      case True
      with False
      have "toggleVerbFilter verbs k st = st\<lparr>verbFilters := ?next, configError := False\<rparr>"
        unfolding toggleVerbFilter_def Let_def by auto
      with True show ?thesis by (rule that(3))
    next
      case nohas: False
      with False have "toggleVerbFilter verbs k st = st\<lparr>configError := True\<rparr>"
        unfolding toggleVerbFilter_def Let_def by auto
      then show ?thesis by (rule that(2))
    qed
  qed
  then show ?thesis
  proof cases
    case 1
    with assms show ?thesis by simp
  next
    case 2
    with assms show ?thesis by (simp add: oneEnabled_def)
  next
    case 3
    from hasAvailablePrompts_enabled [OF 3(1)] 3(2) show ?thesis
      by (simp add: oneEnabled_def)
  qed
qed

text \<open>
  Claim C2. For every dataset and filter state, toggling off a person, a tense or a verb
  type, when the state with that member off has no available prompt, leaves the filter
  state unchanged; in particular so does disabling the last enabled member of its group.
  Every toggle preserves the invariant that at least one person, at least one tense and at
  least one verb type are enabled.
\<close>

theorem toggles_keep_valid_instance:
  "(flag (enabledPersons st) p \<and>
    \<not> hasAvailablePrompts verbs (AList.update p False (enabledPersons st))
         (enabledTenses st) (verbFilters st) (verbLimit st)
      \<longrightarrow> filters (togglePerson verbs p st) = filters st) \<and>
   (flag (enabledTenses st) t \<and>
    \<not> hasAvailablePrompts verbs (enabledPersons st)
         (AList.update t False (enabledTenses st)) (verbFilters st) (verbLimit st)
      \<longrightarrow> filters (toggleTense verbs t st) = filters st) \<and>
   (flag (verbFilters st) k \<and>
    \<not> hasAvailablePrompts verbs (enabledPersons st) (enabledTenses st)
         (AList.update k False (verbFilters st)) (verbLimit st)
      \<longrightarrow> filters (toggleVerbFilter verbs k st) = filters st) \<and>
   (flag (enabledPersons st) p \<and>
    enabledList PERSONS (AList.update p False (enabledPersons st)) = []
      \<longrightarrow> filters (togglePerson verbs p st) = filters st) \<and>
   (flag (enabledTenses st) t \<and>
    enabledList TENSES (AList.update t False (enabledTenses st)) = []
      \<longrightarrow> filters (toggleTense verbs t st) = filters st) \<and>
   (flag (verbFilters st) k \<and>
    enabledList VERB_TYPES (AList.update k False (verbFilters st)) = []
      \<longrightarrow> filters (toggleVerbFilter verbs k st) = filters st) \<and>
   (oneEnabled st
      \<longrightarrow> oneEnabled (togglePerson verbs p st) \<and> oneEnabled (toggleTense verbs t st) \<and>
          oneEnabled (toggleVerbFilter verbs k st))"
proof (intro conjI impI)
  assume "flag (enabledPersons st) p \<and>
    \<not> hasAvailablePrompts verbs (AList.update p False (enabledPersons st))
         (enabledTenses st) (verbFilters st) (verbLimit st)"
  then show "filters (togglePerson verbs p st) = filters st"
    using togglePerson_refused by blast
next
  assume "flag (enabledTenses st) t \<and>
    \<not> hasAvailablePrompts verbs (enabledPersons st)
         (AList.update t False (enabledTenses st)) (verbFilters st) (verbLimit st)"
  then show "filters (toggleTense verbs t st) = filters st"
    using toggleTense_refused by blast
next
  assume "flag (verbFilters st) k \<and>
    \<not> hasAvailablePrompts verbs (enabledPersons st) (enabledTenses st)
         (AList.update k False (verbFilters st)) (verbLimit st)"
  then show "filters (toggleVerbFilter verbs k st) = filters st"
    using toggleVerbFilter_refused by blast
next
  assume a: "flag (enabledPersons st) p \<and>
    enabledList PERSONS (AList.update p False (enabledPersons st)) = []"
  then have "\<not> hasAvailablePrompts verbs (AList.update p False (enabledPersons st))
         (enabledTenses st) (verbFilters st) (verbLimit st)"
    using hasAvailablePrompts_none_enabled(1) by blast
  with a show "filters (togglePerson verbs p st) = filters st"
    using togglePerson_refused by blast
next
  assume a: "flag (enabledTenses st) t \<and>
    enabledList TENSES (AList.update t False (enabledTenses st)) = []"
  then have "\<not> hasAvailablePrompts verbs (enabledPersons st)
         (AList.update t False (enabledTenses st)) (verbFilters st) (verbLimit st)"
    using hasAvailablePrompts_none_enabled(2) by blast
  with a show "filters (toggleTense verbs t st) = filters st"
    using toggleTense_refused by blast
next
  assume a: "flag (verbFilters st) k \<and>
    enabledList VERB_TYPES (AList.update k False (verbFilters st)) = []"
  then have "\<not> hasAvailablePrompts verbs (enabledPersons st) (enabledTenses st)
         (AList.update k False (verbFilters st)) (verbLimit st)"
    using hasAvailablePrompts_none_enabled(3) by blast
  with a show "filters (toggleVerbFilter verbs k st) = filters st"
    using toggleVerbFilter_refused by blast
next
  assume "oneEnabled st"
  then show "oneEnabled (togglePerson verbs p st)" by (rule togglePerson_oneEnabled)
next
  assume "oneEnabled st"
  then show "oneEnabled (toggleTense verbs t st)" by (rule toggleTense_oneEnabled)
next
  assume "oneEnabled st"
  then show "oneEnabled (toggleVerbFilter verbs k st)" by (rule toggleVerbFilter_oneEnabled)
qed

theorem toggles_keep_valid_instance_witness:
  "flag (verbFilters initialState) ''regular'' \<and>
   \<not> hasAvailablePrompts [sampleVerb ''parlar'' 2 True] (enabledPersons initialState)
        (enabledTenses initialState) (AList.update ''regular'' False (verbFilters initialState))
        (verbLimit initialState) \<and>
   filters (toggleVerbFilter [sampleVerb ''parlar'' 2 True] ''regular'' initialState)
     = filters initialState \<and>
   flag (enabledTenses initialState) ''present'' \<and>
   enabledList TENSES (AList.update ''present'' False (enabledTenses initialState)) = [] \<and>
   filters (toggleTense [sampleVerb ''parlar'' 2 True] ''present'' initialState)
     = filters initialState \<and>
   hasAvailablePrompts [sampleVerb ''parlar'' 2 True]
     (AList.update ''jo'' False (enabledPersons initialState)) (enabledTenses initialState)
     (verbFilters initialState) (verbLimit initialState) \<and>
   oneEnabled initialState \<and>
   oneEnabled (togglePerson [sampleVerb ''parlar'' 2 True] ''jo'' initialState) \<and>
   oneEnabled (toggleTense [sampleVerb ''parlar'' 2 True] ''present'' initialState) \<and>
   oneEnabled (toggleVerbFilter [sampleVerb ''parlar'' 2 True] ''regular'' initialState)"
proof -
  let ?verbs = "[sampleVerb ''parlar'' 2 True]"
  have h1: "flag (verbFilters initialState) ''regular''" by code_simp
  have h2: "\<not> hasAvailablePrompts ?verbs (enabledPersons initialState)
        (enabledTenses initialState) (AList.update ''regular'' False (verbFilters initialState))
        (verbLimit initialState)" by code_simp
  have h3: "flag (enabledTenses initialState) ''present''" by code_simp
  have h4: "enabledList TENSES (AList.update ''present'' False (enabledTenses initialState)) = []"
    by code_simp
  have h5: "hasAvailablePrompts ?verbs
     (AList.update ''jo'' False (enabledPersons initialState)) (enabledTenses initialState)
     (verbFilters initialState) (verbLimit initialState)" by code_simp
  have h6: "oneEnabled initialState" by code_simp
  note t = toggles_keep_valid_instance [where st = initialState and verbs = ?verbs
      and p = "''jo''" and t = "''present''" and k = "''regular''"]
  from t h1 h2 have c1: "filters (toggleVerbFilter ?verbs ''regular'' initialState)
     = filters initialState" by blast
  from t h3 h4 have c2: "filters (toggleTense ?verbs ''present'' initialState)
     = filters initialState" by blast
  from t h6 have c3: "oneEnabled (togglePerson ?verbs ''jo'' initialState) \<and>
      oneEnabled (toggleTense ?verbs ''present'' initialState) \<and>
      oneEnabled (toggleVerbFilter ?verbs ''regular'' initialState)" by blast
  from h1 h2 h3 h4 h5 h6 c1 c2 c3 show ?thesis by blast
qed

section \<open>The validator\<close>

lemma trim_Nil: "trim [] = []"
  by (simp add: trim_def)

lemma cell_ok_iff:
  "\<not> (falsy c \<or> \<not> typeofString c \<or> trimmedEmpty c) \<longleftrightarrow> (\<exists>s. c = Some (JStr s) \<and> trim s \<noteq> [])"
  by (cases c rule: falsy.cases) (auto simp: trim_Nil)

lemma hasForm_iff:
  "jsonGet verbTenses t = Some block \<Longrightarrow>
   hasForm verbTenses t p \<longleftrightarrow> (\<exists>s. jsonGet block p = Some (JStr s) \<and> trim s \<noteq> [])"
proof (cases block)
  case (JObj kvs)
  assume "jsonGet verbTenses t = Some block"
  with JObj have h: "hasForm verbTenses t p =
      (case map_of kvs p of Some (JStr s) \<Rightarrow> trim s \<noteq> [] | _ \<Rightarrow> False)"
    by (simp add: hasForm_def)
  show ?thesis unfolding h JObj
    by (cases "map_of kvs p" rule: falsy.cases) simp_all
qed (simp_all add: hasForm_def)

lemma formIssues_conv:
  assumes "jsonGet verbTenses t = Some block"
  shows "formIssues block t p =
         (if hasForm verbTenses t p then [] else [''missing-form:'' @ t @ '':'' @ p])"
proof -
  have "formIssues block t p =
     (if \<not> (falsy (jsonGet block p) \<or> \<not> typeofString (jsonGet block p) \<or>
              trimmedEmpty (jsonGet block p)) then []
      else [''missing-form:'' @ t @ '':'' @ p])"
    by (simp add: formIssues_def Let_def)
  then show ?thesis
    unfolding cell_ok_iff hasForm_iff [OF assms] .
qed

lemma hasBlock_iff:
  "hasBlock verbTenses t \<longleftrightarrow>
   (\<exists>block. jsonGet verbTenses t = Some block \<and> \<not> falsy (Some block) \<and> typeofObject (Some block))"
proof (cases "jsonGet verbTenses t" rule: falsy.cases)
qed (simp_all add: hasBlock_def)

lemma tenseIssues_block:
  assumes "hasBlock verbTenses t"
  shows "tenseIssues verbTenses t =
         concat (map (\<lambda>p. if hasForm verbTenses t p then []
                            else [''missing-form:'' @ t @ '':'' @ p]) (requiredPersons t))"
proof -
  from assms obtain block where b: "jsonGet verbTenses t = Some block"
    and ok: "\<not> falsy (Some block)" "typeofObject (Some block)"
    unfolding hasBlock_iff by blast
  have eq: "formIssues block t = (\<lambda>p. if hasForm verbTenses t p then []
                            else [''missing-form:'' @ t @ '':'' @ p])"
    by (rule ext) (rule formIssues_conv [OF b])
  from b ok have "tenseIssues verbTenses t = concat (map (formIssues block t) (requiredPersons t))"
    by (simp add: tenseIssues_def)
  then show ?thesis unfolding eq .
qed

lemma tenseIssues_complete:
  assumes "hasBlock verbTenses t" and "\<forall>p \<in> set (requiredPersons t). hasForm verbTenses t p"
  shows "tenseIssues verbTenses t = []"
  using assms by (simp add: tenseIssues_block)

lemma requiredPersons_simps:
  "requiredPersons ''present'' = PERSONS" "requiredPersons ''imperfect'' = PERSONS"
  "requiredPersons ''future'' = PERSONS" "requiredPersons ''conditional'' = PERSONS"
  "requiredPersons ''subjunctive_present'' = PERSONS"
  "requiredPersons ''subjunctive_imperfect'' = PERSONS"
  "requiredPersons ''imperative'' = []"
  by (simp_all add: requiredPersons_def REQUIRED_BY_TENSE_def)

lemma hasForm_hasBlock: "hasForm verbTenses t p \<Longrightarrow> hasBlock verbTenses t"
  by (cases "jsonGet verbTenses t" rule: falsy.cases) (simp_all add: hasForm_def hasBlock_def)

lemma set_requiredCells:
  "set requiredCells = {(t, p). t \<in> set VALIDATE_TENSES \<and> p \<in> set (requiredPersons t)}"
  by (auto simp: requiredCells_def)

lemma cellsPresent_iff:
  "cellsPresent cells v \<longleftrightarrow>
   (\<exists>verbTenses. jsonGet v ''tenses'' = Some verbTenses \<and>
      (\<forall>(t, p) \<in> set cells. hasForm verbTenses t p))"
  by (auto simp: cellsPresent_def list_all_iff split: option.splits)

lemma cellsPresent_mono:
  "cellsPresent cells v \<Longrightarrow> set cells' \<subseteq> set cells \<Longrightarrow> cellsPresent cells' v"
  unfolding cellsPresent_iff by blast

lemma entry_facts:
  assumes ws: "wellShaped v"
    and cp: "cellsPresent (removeAll (''future'', ''tu'') requiredCells) v"
  obtains kvs verbTenses where "v = JObj kvs" "jsonGet v ''tenses'' = Some verbTenses"
    "\<not> falsy (Some verbTenses)" "typeofObject (Some verbTenses)"
    "\<not> falsy (jsonGet v ''infinitive'')"
    "\<forall>t \<in> set VALIDATE_TENSES. hasBlock verbTenses t"
    "\<forall>t \<in> set VALIDATE_TENSES. \<forall>p \<in> set (requiredPersons t).
        (t, p) \<noteq> (''future'', ''tu'') \<longrightarrow> hasForm verbTenses t p"
proof -
  from cp obtain ts where ts: "jsonGet v ''tenses'' = Some ts"
    and cells: "\<forall>(t, p) \<in> set (removeAll (''future'', ''tu'') requiredCells). hasForm ts t p"
    unfolding cellsPresent_iff by blast
  from cells have forms: "\<forall>t \<in> set VALIDATE_TENSES. \<forall>p \<in> set (requiredPersons t).
        (t, p) \<noteq> (''future'', ''tu'') \<longrightarrow> hasForm ts t p"
    by (auto simp: set_requiredCells)
  from ws ts have inf: "\<not> falsy (jsonGet v ''infinitive'')" and imp: "hasBlock ts ''imperative''"
    by (simp_all add: wellShaped_def)
  have blocks: "\<forall>t \<in> set VALIDATE_TENSES. hasBlock ts t"
  proof
    fix t assume t: "t \<in> set VALIDATE_TENSES"
    show "hasBlock ts t"
    proof (cases "t = ''imperative''")
      case True
      with imp show ?thesis by simp
    next
      case False
      with t have "''jo'' \<in> set (requiredPersons t)"
        by (auto simp: VALIDATE_TENSES_def requiredPersons_simps PERSONS_def)
      with forms t have "hasForm ts t ''jo''" by auto
      then show ?thesis by (rule hasForm_hasBlock)
    qed
  qed
  from ts obtain kvs where v: "v = JObj kvs" by (cases v) simp_all
  from blocks have "hasBlock ts ''present''" by (simp add: VALIDATE_TENSES_def)
  then obtain tkvs where "ts = JObj tkvs" by (cases ts) (simp_all add: hasBlock_def)
  then have "\<not> falsy (Some ts)" "typeofObject (Some ts)" by simp_all
  with v ts inf blocks forms that show thesis by blast
qed

lemma validateVerb_complete:
  assumes ws: "wellShaped v" and cp: "cellsPresent requiredCells v"
  shows "validateVerb v = []"
proof -
  from cp have cp': "cellsPresent (removeAll (''future'', ''tu'') requiredCells) v"
    by (rule cellsPresent_mono) auto
  from ws cp' obtain kvs verbTenses where v: "v = JObj kvs"
    and ts: "jsonGet v ''tenses'' = Some verbTenses"
    and ok: "\<not> falsy (Some verbTenses)" "typeofObject (Some verbTenses)"
    and inf: "\<not> falsy (jsonGet v ''infinitive'')"
    and blocks: "\<forall>t \<in> set VALIDATE_TENSES. hasBlock verbTenses t"
    by (rule entry_facts)
  from cp ts have "\<forall>t \<in> set VALIDATE_TENSES. \<forall>p \<in> set (requiredPersons t). hasForm verbTenses t p"
    unfolding cellsPresent_iff by (auto simp: set_requiredCells)
  with blocks have "\<forall>t \<in> set VALIDATE_TENSES. tenseIssues verbTenses t = []"
    by (simp add: tenseIssues_complete)
  then have "concat (map (tenseIssues verbTenses) VALIDATE_TENSES) = []" by simp
  with v ts ok inf show ?thesis by (simp add: validateVerb_def)
qed

lemma validateVerb_future_tu:
  assumes ws: "wellShaped v"
    and cp: "cellsPresent (removeAll (''future'', ''tu'') requiredCells) v"
    and miss: "\<not> cellsPresent [(''future'', ''tu'')] v"
  shows "validateVerb v = [''missing-form:future:tu'']"
proof -
  from ws cp obtain kvs verbTenses where v: "v = JObj kvs"
    and ts: "jsonGet v ''tenses'' = Some verbTenses"
    and ok: "\<not> falsy (Some verbTenses)" "typeofObject (Some verbTenses)"
    and inf: "\<not> falsy (jsonGet v ''infinitive'')"
    and blocks: "\<forall>t \<in> set VALIDATE_TENSES. hasBlock verbTenses t"
    and forms: "\<forall>t \<in> set VALIDATE_TENSES. \<forall>p \<in> set (requiredPersons t).
        (t, p) \<noteq> (''future'', ''tu'') \<longrightarrow> hasForm verbTenses t p"
    by (rule entry_facts)
  from miss ts have nf: "\<not> hasForm verbTenses ''future'' ''tu''"
    by (simp add: cellsPresent_def)
  have other: "tenseIssues verbTenses t = []"
    if "t \<in> set VALIDATE_TENSES" "t \<noteq> ''future''" for t
    using blocks forms that by (intro tenseIssues_complete) auto
  have fut: "tenseIssues verbTenses ''future'' = [''missing-form:future:tu'']"
  proof -
    from blocks have hb: "hasBlock verbTenses ''future''" by (simp add: VALIDATE_TENSES_def)
    from forms have "\<forall>p \<in> set PERSONS. p \<noteq> ''tu'' \<longrightarrow> hasForm verbTenses ''future'' p"
      by (simp add: VALIDATE_TENSES_def requiredPersons_simps)
    with nf show ?thesis
      by (simp add: tenseIssues_block [OF hb] requiredPersons_simps PERSONS_def)
  qed
  have "concat (map (tenseIssues verbTenses) VALIDATE_TENSES) = [''missing-form:future:tu'']"
    using other fut by (simp add: VALIDATE_TENSES_def)
  with v ts ok inf show ?thesis by (simp add: validateVerb_def)
qed

lemma validate_append: "validate (xs @ ys) = validate xs @ validate ys"
  by (simp add: validate_def)

lemma validate_all_complete:
  assumes "\<forall>v \<in> set dataset. wellShaped v \<and> cellsPresent requiredCells v"
  shows "validate dataset = []"
  using assms by (induction dataset) (simp_all add: validate_def validateVerb_complete)

text \<open>
  Claim C6, amended. In a dataset whose other entries have a non-empty infinitive, a block
  for the imperative and every required cell present and non-empty, an entry with a
  non-empty infinitive and a block for the imperative that lacks only the "tu" form of
  "future" gives exactly one row of the report: that entry, with the one issue
  "missing-form:future:tu". For a dataset whose every entry has a non-empty infinitive, a
  block for the imperative and all required cells, the report is empty.
\<close>

theorem validate_missing_future_tu:
  assumes "\<forall>w \<in> set before \<union> set after. wellShaped w \<and> cellsPresent requiredCells w"
    and "wellShaped v"
    and "cellsPresent (removeAll (''future'', ''tu'') requiredCells) v"
    and "\<not> cellsPresent [(''future'', ''tu'')] v"
  shows "validateVerb v = [''missing-form:future:tu''] \<and>
         validate (before @ v # after) = [(reportName v, [''missing-form:future:tu''])] \<and>
         ((\<forall>w \<in> set dataset. wellShaped w \<and> cellsPresent requiredCells w)
            \<longrightarrow> validate dataset = [])"
proof -
  from assms(1) have "validate before = []" "validate after = []"
    by (simp_all add: validate_all_complete)
  moreover have vv: "validateVerb v = [''missing-form:future:tu'']"
    using assms(2,3,4) by (rule validateVerb_future_tu)
  moreover have "validate [v] = [(reportName v, [''missing-form:future:tu''])]"
    by (simp add: validate_def vv)
  ultimately have "validate (before @ v # after) = [(reportName v, [''missing-form:future:tu''])]"
    using validate_append [of before "[v] @ after"] validate_append [of "[v]" after] by simp
  with vv show ?thesis by (simp add: validate_all_complete)
qed

text \<open>
  Claim C6, as stated, fails for an entry that has every required cell and no block for
  the imperative, and for one that has every required cell and an empty infinitive: the
  report is not empty.
\<close>

theorem validate_imperative_counterexample:
  "cellsPresent requiredCells
     (sampleEntry ''ser'' False (sampleTable sixTenses)) \<and>
   validate [sampleEntry ''ser'' False (sampleTable sixTenses)]
     = [(JStr ''ser'', [''missing-tense:imperative''])] \<and>
   cellsPresent requiredCells
     (sampleEntry [] False
        (sampleTable sixTenses @ [(''imperative'', JObj [])])) \<and>
   validate [sampleEntry [] False
        (sampleTable sixTenses @ [(''imperative'', JObj [])])]
     = [(JStr ''unknown'', [''missing-infinitive''])]"
  by code_simp

theorem validate_missing_future_tu_witness:
  "validate
     [sampleEntry ''anar'' False
        (sampleTable sixTenses @ [(''imperative'', JObj [])]),
      sampleEntry ''ser'' False
        [(''present'', sampleBlock PERSONS), (''imperfect'', sampleBlock PERSONS),
         (''future'', sampleBlock [''jo'', ''ell'', ''nosaltres'', ''vosaltres'', ''ells'']),
         (''conditional'', sampleBlock PERSONS), (''subjunctive_present'', sampleBlock PERSONS),
         (''subjunctive_imperfect'', sampleBlock PERSONS), (''imperative'', JObj [])],
      sampleEntry ''parlar'' True
        (sampleTable sixTenses @ [(''imperative'', JObj [])])]
     = [(JStr ''ser'', [''missing-form:future:tu''])] \<and>
   validate
     [sampleEntry ''anar'' False
        (sampleTable sixTenses @ [(''imperative'', JObj [])])] = []"
proof -
  let ?ok1 = "sampleEntry ''anar'' False
        (sampleTable sixTenses @ [(''imperative'', JObj [])])"
  let ?ok2 = "sampleEntry ''parlar'' True
        (sampleTable sixTenses @ [(''imperative'', JObj [])])"
  let ?v = "sampleEntry ''ser'' False
        [(''present'', sampleBlock PERSONS), (''imperfect'', sampleBlock PERSONS),
         (''future'', sampleBlock [''jo'', ''ell'', ''nosaltres'', ''vosaltres'', ''ells'']),
         (''conditional'', sampleBlock PERSONS), (''subjunctive_present'', sampleBlock PERSONS),
         (''subjunctive_imperfect'', sampleBlock PERSONS), (''imperative'', JObj [])]"
  have a: "wellShaped ?ok1 \<and> cellsPresent requiredCells ?ok1" by code_simp
  have b: "wellShaped ?ok2 \<and> cellsPresent requiredCells ?ok2" by code_simp
  have h1: "\<forall>w \<in> set [?ok1] \<union> set [?ok2]. wellShaped w \<and> cellsPresent requiredCells w"
    using a b by simp
  have h2: "wellShaped ?v" by code_simp
  have h3: "cellsPresent (removeAll (''future'', ''tu'') requiredCells) ?v" by code_simp
  have h4: "\<not> cellsPresent [(''future'', ''tu'')] ?v" by code_simp
  have h5: "\<forall>w \<in> set [?ok1]. wellShaped w \<and> cellsPresent requiredCells w"
    using a by simp
  have n: "reportName ?v = JStr ''ser''" by code_simp
  from validate_missing_future_tu [OF h1 h2 h3 h4, of "[?ok1]"] h5 n
  show ?thesis by simp
qed




section \<open>The dataset builder\<close>

lemma ranked_initial: "ranked initialSelection"
  by (simp add: ranked_def initialSelection_def)

lemma ranked_missing:
  "ranked st \<Longrightarrow> ranked (st\<lparr>missingTranslations := ms\<rparr>)"
  by (simp add: ranked_def)

lemma ranked_bounds:
  assumes "ranked st" and "c \<in> set (selected st) \<or> c \<in> set (orthographyCandidates st)"
  shows "0 < rank c" "rank c < Suc (counter st)" "rank c \<noteq> Suc (counter st)"
    "Suc (counter st) \<noteq> rank c" "rank c \<le> Suc (counter st)"
proof -
  from assms have "0 < rank c \<and> rank c \<le> counter st" unfolding ranked_def by blast
  then show "0 < rank c" "rank c < Suc (counter st)" "rank c \<noteq> Suc (counter st)"
    "Suc (counter st) \<noteq> rank c" "rank c \<le> Suc (counter st)" by simp_all
qed

lemma ranked_push_selected:
  assumes "ranked st"
  shows "ranked (st\<lparr>counter := Suc (counter st),
                    selected := selected st @ [\<lparr>infinitive = w, translation = t,
                                                rank = Suc (counter st)\<rparr>]\<rparr>)"
proof -
  from assms have "sorted_wrt (<) (map rank (selected st))"
    "sorted_wrt (<) (map rank (orthographyCandidates st))"
    "distinct (map rank (selected st @ orthographyCandidates st))"
    by (simp_all add: ranked_def)
  then show ?thesis
    unfolding ranked_def
    by (auto simp: sorted_wrt_append ranked_bounds [OF assms])
qed

lemma ranked_push_orthography:
  assumes "ranked st"
  shows "ranked (st\<lparr>counter := Suc (counter st),
                    orthographyCandidates := orthographyCandidates st @
                      [\<lparr>infinitive = w, translation = t, rank = Suc (counter st)\<rparr>]\<rparr>)"
proof -
  from assms have "sorted_wrt (<) (map rank (selected st))"
    "sorted_wrt (<) (map rank (orthographyCandidates st))"
    "distinct (map rank (selected st @ orthographyCandidates st))"
    by (simp_all add: ranked_def)
  then show ?thesis
    unfolding ranked_def
    by (auto simp: sorted_wrt_append ranked_bounds [OF assms])
qed

lemma selectLoop_ranked: "ranked st \<Longrightarrow> ranked (selectLoop translationMap freqWords st)"
proof (induction freqWords arbitrary: st)
  case Nil
  then show ?case by simp
next
  case (Cons word rest)
  show ?case
    using Cons.prems
    by (auto simp: Let_def split: option.splits
        intro!: Cons.IH ranked_missing ranked_push_selected ranked_push_orthography)
qed

lemma includeOrthographic_take:
  "includeOrthographic cs sel = sel @ take (MAX_VERBS - length sel) cs"
proof (induction cs arbitrary: sel)
  case Nil
  then show ?case by simp
next
  case (Cons c cs)
  show ?case
  proof (cases "length sel \<ge> MAX_VERBS")
    case True
    then show ?thesis by simp
  next
    case False
    then have "MAX_VERBS - length sel = Suc (MAX_VERBS - length (sel @ [c]))" by simp
    with False Cons.IH [of "sel @ [c]"] show ?thesis by simp
  qed
qed

lemma distinct_append_take: "distinct (xs @ ys) \<Longrightarrow> distinct (xs @ take n ys)"
  by (auto dest: in_set_takeD)

lemma selectVerbs_conv:
  "selectVerbs translationMap freqWords =
     (let st = selectLoop translationMap freqWords initialSelection
      in selected st @ take (MAX_VERBS - length (selected st)) (orthographyCandidates st))"
  by (simp add: selectVerbs_def Let_def includeOrthographic_take)

text \<open>
  Claim C3, as stated, fails when a verb in "-car" comes before another verb in the
  frequency list: "tocar" takes rank 1 and is deferred, "parlar" takes rank 2, and the
  assembled order is "parlar" (2), "tocar" (1).
\<close>

theorem selectVerbs_rank_counterexample:
  "map rank (selectVerbs (map_of [(''tocar'', ''to touch''), (''parlar'', ''to speak'')])
               [''tocar'', ''parlar'']) = [2, 1] \<and>
   map infinitive (selectVerbs (map_of [(''tocar'', ''to touch''), (''parlar'', ''to speak'')])
               [''tocar'', ''parlar'']) = [''parlar'', ''tocar'']"
  by code_simp

text \<open>
  Claim C3, amended. For every frequency list and translation map, the assembled
  selection is the verbs of the main pass followed by the deferred verbs for which there is
  room; the ranks are positive and pairwise different, strictly increasing along the
  main-pass verbs and strictly increasing along the deferred verbs.
\<close>

theorem selectVerbs_ranks:
  "(let st = selectLoop translationMap freqWords initialSelection;
        mainPass = selected st;
        deferred = take (MAX_VERBS - length (selected st)) (orthographyCandidates st)
    in selectVerbs translationMap freqWords = mainPass @ deferred \<and>
       sorted_wrt (<) (map rank mainPass) \<and>
       sorted_wrt (<) (map rank deferred) \<and>
       distinct (map rank (mainPass @ deferred)) \<and>
       list_all (\<lambda>c. 0 < rank c) (mainPass @ deferred))"
proof -
  let ?st = "selectLoop translationMap freqWords initialSelection"
  let ?n = "MAX_VERBS - length (selected ?st)"
  have r: "ranked ?st" by (rule selectLoop_ranked [OF ranked_initial])
  have a: "sorted_wrt (<) (map rank (selected ?st))" using r by (simp add: ranked_def)
  have "sorted_wrt (<) (take ?n (map rank (orthographyCandidates ?st)))"
    using r by (intro sorted_wrt_take) (simp add: ranked_def)
  then have b: "sorted_wrt (<) (map rank (take ?n (orthographyCandidates ?st)))"
    by (simp add: take_map)
  have "distinct (map rank (selected ?st) @ map rank (orthographyCandidates ?st))"
    using r by (simp add: ranked_def)
  then have "distinct (map rank (selected ?st) @ take ?n (map rank (orthographyCandidates ?st)))"
    by (rule distinct_append_take)
  then have c: "distinct (map rank (selected ?st @ take ?n (orthographyCandidates ?st)))"
    by (simp add: take_map)
  have d: "list_all (\<lambda>c. 0 < rank c) (selected ?st @ take ?n (orthographyCandidates ?st))"
    using r unfolding ranked_def list_all_iff by (auto dest: in_set_takeD)
  from a b c d show ?thesis by (simp add: Let_def selectVerbs_conv)
qed

lemma length_outcomes: "length (outcomes fetch w cs) = length cs"
  by (induction cs arbitrary: w) (auto split: prod.splits)

lemma entryOf_simps:
  "entryOf tm (c, Inr table) = [buildEntry tm c table]" "entryOf tm (c, Inl message) = []"
  by (simp_all add: entryOf_def)

lemma diagnosticOf_simps:
  "diagnosticOf (c, Inl message) = [infinitive c @ '': '' @ message]"
  "diagnosticOf (c, Inr table) = []"
  by (simp_all add: diagnosticOf_def)

lemma conjugationLoop_acc:
  "conjugationLoop fetch tm cs w verbs missing =
     (verbs @ concat (map (entryOf tm) (zip cs (outcomes fetch w cs))),
      missing @ concat (map diagnosticOf (zip cs (outcomes fetch w cs))),
      snd (snd (conjugationLoop fetch tm cs w verbs missing)))"
proof (induction cs arbitrary: w verbs missing)
  case Nil
  then show ?case by simp
next
  case (Cons c cs)
  obtain r w' where f: "fetch w (infinitive c) = (r, w')" by (cases "fetch w (infinitive c)")
  show ?case
  proof (cases r)
    case (Inl message)
    with f show ?thesis
      by (simp add: entryOf_simps diagnosticOf_simps)
         (subst Cons.IH, simp)
  next
    case (Inr table)
    with f show ?thesis
      by (simp add: entryOf_simps diagnosticOf_simps)
         (subst Cons.IH, simp)
  qed
qed

lemma length_entry_diag: "length (entryOf tm x) + length (diagnosticOf x) = 1"
proof -
  obtain c r where x: "x = (c, r)" by (cases x)
  show ?thesis unfolding x by (cases r) (simp_all add: entryOf_simps diagnosticOf_simps)
qed

lemma length_concat_entries:
  "length (concat (map (entryOf tm) xs)) + length (concat (map diagnosticOf xs)) = length xs"
proof (induction xs)
  case Nil
  then show ?case by simp
next
  case (Cons x xs)
  with length_entry_diag [of tm x] show ?case by simp
qed

lemma map_infinitive_entries:
  "map infinitive (concat (map (entryOf tm) xs))
     = map (\<lambda>x. infinitive (fst x)) (filter (\<lambda>x. \<not> isl (snd x)) xs)"
proof (induction xs)
  case Nil
  then show ?case by simp
next
  case (Cons x xs)
  obtain c r where x: "x = (c, r)" by (cases x)
  from Cons show ?case unfolding x
    by (cases r) (simp_all add: entryOf_simps buildEntry_def Let_def)
qed

text \<open>
  Claim C9. The loop over the selected verbs asks the environment for the table of every
  one of them, whatever the earlier answers were. A verb whose fetch or parse throws gives
  the line "infinitive: message" in the diagnostics and no entry; a verb whose fetch
  succeeds gives its entry; the entries are written in the order of the selection. The loop
  is total: it ends with a dataset and a diagnostics list for every behaviour of the
  environment.
\<close>

theorem conjugationLoop_partial_failure:
  "(let os = outcomes fetch w sel;
        verbs = fst (conjugationLoop fetch translationMap sel w [] []);
        missingConjugations = fst (snd (conjugationLoop fetch translationMap sel w [] []))
    in length os = length sel \<and>
       verbs = concat (map (entryOf translationMap) (zip sel os)) \<and>
       missingConjugations = concat (map diagnosticOf (zip sel os)) \<and>
       length verbs + length missingConjugations = length sel \<and>
       map infinitive verbs
         = map (\<lambda>x. infinitive (fst x)) (filter (\<lambda>x. \<not> isl (snd x)) (zip sel os)) \<and>
       (\<forall>i < length sel.
          case os ! i of
            Inl message \<Rightarrow> (infinitive (sel ! i) @ '': '' @ message) \<in> set missingConjugations
          | Inr table \<Rightarrow> buildEntry translationMap (sel ! i) table \<in> set verbs))"
proof -
  let ?os = "outcomes fetch w sel"
  let ?r = "conjugationLoop fetch translationMap sel w [] []"
  have l: "length ?os = length sel" by (rule length_outcomes)
  have v: "fst ?r = concat (map (entryOf translationMap) (zip sel ?os))"
    by (subst conjugationLoop_acc) simp
  have m: "fst (snd ?r) = concat (map diagnosticOf (zip sel ?os))"
    by (subst conjugationLoop_acc) simp
  have "length (fst ?r) + length (fst (snd ?r)) = length (zip sel ?os)"
    unfolding v m by (rule length_concat_entries)
  with l have n: "length (fst ?r) + length (fst (snd ?r)) = length sel" by simp
  have names: "map infinitive (fst ?r)
         = map (\<lambda>x. infinitive (fst x)) (filter (\<lambda>x. \<not> isl (snd x)) (zip sel ?os))"
    unfolding v by (rule map_infinitive_entries)
  have each: "case ?os ! i of
            Inl message \<Rightarrow> (infinitive (sel ! i) @ '': '' @ message) \<in> set (fst (snd ?r))
          | Inr table \<Rightarrow> buildEntry translationMap (sel ! i) table \<in> set (fst ?r)"
    if i: "i < length sel" for i
  proof -
    from i l have mem: "(sel ! i, ?os ! i) \<in> set (zip sel ?os)"
      by (metis in_set_zip fst_conv snd_conv)
    show ?thesis
    proof (cases "?os ! i")
      case (Inl message)
      with mem have "(sel ! i, Inl message) \<in> set (zip sel ?os)" by simp
      then have "(infinitive (sel ! i) @ '': '' @ message) \<in> set (fst (snd ?r))"
        unfolding m by (force simp: diagnosticOf_simps)
      with Inl show ?thesis by simp
    next
      case (Inr table)
      with mem have "(sel ! i, Inr table) \<in> set (zip sel ?os)" by simp
      then have "buildEntry translationMap (sel ! i) table \<in> set (fst ?r)"
        unfolding v by (force simp: entryOf_simps)
      with Inr show ?thesis by simp
    qed
  qed
  from each have all: "\<forall>i < length sel. case ?os ! i of
            Inl message \<Rightarrow> (infinitive (sel ! i) @ '': '' @ message) \<in> set (fst (snd ?r))
          | Inr table \<Rightarrow> buildEntry translationMap (sel ! i) table \<in> set (fst ?r)"
    by blast
  show ?thesis
    unfolding Let_def
    using l v [symmetric] m [symmetric] n names all by (intro conjI) simp_all
qed

theorem conjugationLoop_partial_failure_witness:
  "outcomes sampleFetch 0
     [\<lparr>infinitive = ''anar'', translation = ''to go'', rank = 2\<rparr>,
      \<lparr>infinitive = ''ser'', translation = ''to be'', rank = 3\<rparr>,
      \<lparr>infinitive = ''parlar'', translation = ''to speak'', rank = 4\<rparr>]
     = [Inr [], Inl ''Missing tu for ser (future)'', Inr []] \<and>
   (''ser: Missing tu for ser (future)'') \<in> set (fst (snd (conjugationLoop sampleFetch Map.empty
     [\<lparr>infinitive = ''anar'', translation = ''to go'', rank = 2\<rparr>,
      \<lparr>infinitive = ''ser'', translation = ''to be'', rank = 3\<rparr>,
      \<lparr>infinitive = ''parlar'', translation = ''to speak'', rank = 4\<rparr>] 0 [] []))) \<and>
   map infinitive (fst (conjugationLoop sampleFetch Map.empty
     [\<lparr>infinitive = ''anar'', translation = ''to go'', rank = 2\<rparr>,
      \<lparr>infinitive = ''ser'', translation = ''to be'', rank = 3\<rparr>,
      \<lparr>infinitive = ''parlar'', translation = ''to speak'', rank = 4\<rparr>] 0 [] []))
     = [''anar'', ''parlar'']"
proof -
  let ?sel = "[\<lparr>infinitive = ''anar'', translation = ''to go'', rank = 2\<rparr>,
      \<lparr>infinitive = ''ser'', translation = ''to be'', rank = 3\<rparr>,
      \<lparr>infinitive = ''parlar'', translation = ''to speak'', rank = 4\<rparr>]"
  have os: "outcomes sampleFetch 0 ?sel = [Inr [], Inl ''Missing tu for ser (future)'', Inr []]"
    by (simp add: sampleFetch_def)
  have i: "(1::nat) < length ?sel" by simp
  note t = conjugationLoop_partial_failure [of sampleFetch 0 ?sel Map.empty, unfolded Let_def]
  note names = t [THEN conjunct2, THEN conjunct2, THEN conjunct2, THEN conjunct2, THEN conjunct1]
  note each = t [THEN conjunct2, THEN conjunct2, THEN conjunct2, THEN conjunct2, THEN conjunct2,
      rule_format, OF i]
  from names have a: "map infinitive (fst (conjugationLoop sampleFetch Map.empty ?sel 0 [] []))
         = [''anar'', ''parlar'']"
    unfolding os by simp
  from each have b: "(''ser: Missing tu for ser (future)'')
               \<in> set (fst (snd (conjugationLoop sampleFetch Map.empty ?sel 0 [] [])))"
    unfolding os by simp
  from os a b show ?thesis by blast
qed

section \<open>The dictionary parser\<close>

lemma execLoop_None: "rxExec entryRegex teiText = None \<Longrightarrow> execLoop body teiText acc = acc"
  by (subst execLoop.simps) simp

lemma execLoop_Some:
  "rxExec entryRegex teiText = Some (entry, cap, rest) \<Longrightarrow>
   execLoop body teiText acc = execLoop body rest (body entry acc)"
  by (subst execLoop.simps) simp

lemma execLoop_snoc_all:
  "\<forall>acc. execLoop (\<lambda>entry acc. acc @ [entry]) teiText acc
     = acc @ execLoop (\<lambda>entry acc. acc @ [entry]) teiText []"
proof (induction "\<lambda>(e :: string) (u :: unit). u" teiText "()" rule: execLoop.induct)
  case (1 teiText)
  show ?case
  proof (cases "rxExec entryRegex teiText")
    case None
    then show ?thesis by (simp add: execLoop_None)
  next
    case (Some x)
    obtain entry cap rest where x: "x = (entry, cap, rest)" by (cases x)
    note ex = Some [unfolded x]
    note IH = 1 [OF ex refl refl, rule_format]
    show ?thesis
    proof
      fix acc :: "string list"
      have "execLoop (\<lambda>entry acc. acc @ [entry]) teiText acc
              = execLoop (\<lambda>entry acc. acc @ [entry]) rest (acc @ [entry])"
        by (rule execLoop_Some [OF ex])
      also have "\<dots> = (acc @ [entry]) @ execLoop (\<lambda>entry acc. acc @ [entry]) rest []"
        by (rule IH)
      also have "\<dots> = acc @ execLoop (\<lambda>entry acc. acc @ [entry]) rest ([] @ [entry])"
        using IH [of "[entry]"] by simp
      also have "\<dots> = acc @ execLoop (\<lambda>entry acc. acc @ [entry]) teiText []"
        by (simp add: execLoop_Some [OF ex])
      finally show "execLoop (\<lambda>entry acc. acc @ [entry]) teiText acc
              = acc @ execLoop (\<lambda>entry acc. acc @ [entry]) teiText []" .
    qed
  qed
qed

lemma execLoop_snoc:
  "execLoop (\<lambda>entry acc. acc @ [entry]) teiText acc
     = acc @ execLoop (\<lambda>entry acc. acc @ [entry]) teiText []"
  using execLoop_snoc_all by blast

lemma entryMatches_None: "rxExec entryRegex teiText = None \<Longrightarrow> entryMatches teiText = []"
  by (simp add: entryMatches_def execLoop_None)

lemma entryMatches_Some:
  "rxExec entryRegex teiText = Some (entry, cap, rest) \<Longrightarrow>
   entryMatches teiText = entry # entryMatches rest"
  unfolding entryMatches_def
  by (subst execLoop_Some, assumption, subst execLoop_snoc) simp

lemma execLoop_foldl:
  "execLoop body teiText acc = foldl (\<lambda>a e. body e a) acc (entryMatches teiText)"
proof (induction body teiText acc rule: execLoop.induct)
  case (1 body teiText acc)
  show ?case
  proof (cases "rxExec entryRegex teiText")
    case None
    then show ?thesis by (simp add: execLoop_None entryMatches_None)
  next
    case (Some x)
    obtain entry cap rest where x: "x = (entry, cap, rest)" by (cases x)
    note ex = Some [unfolded x]
    from 1 [OF ex refl refl] show ?thesis
      by (simp add: execLoop_Some [OF ex] entryMatches_Some [OF ex])
  qed
qed

lemma parseStep_keeps: "m l = Some t \<Longrightarrow> parseStep e m l = Some t"
  by (auto simp: parseStep_def setFirst_def split: option.splits)

lemma foldl_parseStep_keeps:
  "m l = Some t \<Longrightarrow> foldl (\<lambda>a e. parseStep e a) m es l = Some t"
  by (induction es arbitrary: m) (simp_all add: parseStep_keeps)

lemma foldl_parseStep_skip:
  assumes "\<forall>e \<in> set es. \<forall>t. parseEntry e \<noteq> Some (l, t)"
  shows "foldl (\<lambda>a e. parseStep e a) m es l = m l"
  using assms
proof (induction es arbitrary: m)
  case Nil
  then show ?case by simp
next
  case (Cons e es)
  from Cons.prems have "parseStep e m l = m l"
    by (auto simp: parseStep_def setFirst_def split: option.splits)
  with Cons show ?case by simp
qed

text \<open>
  Claim C8. When the entries of the input include two verb entries with the same
  headword, the first of them being the first entry of the input that gives this headword,
  the map that \<open>parseFreeDict\<close> returns binds the headword to the translation of the
  first, whatever the translation of the second is. A binding that the map has is kept by
  every later step of the loop.
\<close>

theorem parseFreeDict_first_wins:
  assumes "entryMatches teiText = before @ e1 # between @ e2 # after"
    and "parseEntry e1 = Some (l, t1)" and "parseEntry e2 = Some (l, t2)"
    and "\<forall>e \<in> set before. \<forall>t. parseEntry e \<noteq> Some (l, t)"
  shows "parseFreeDict teiText l = Some t1 \<and>
         (\<forall>m t. m l = Some t \<longrightarrow> execLoop parseStep teiText m l = Some t)"
proof -
  let ?f = "\<lambda>a e. parseStep e a"
  have "foldl ?f Map.empty before l = None"
    using assms(4) by (simp add: foldl_parseStep_skip)
  then have "parseStep e1 (foldl ?f Map.empty before) l = Some t1"
    using assms(2) by (simp add: parseStep_def setFirst_def)
  then have "foldl ?f (parseStep e1 (foldl ?f Map.empty before)) (between @ e2 # after) l = Some t1"
    by (rule foldl_parseStep_keeps)
  then have "foldl ?f Map.empty (before @ e1 # between @ e2 # after) l = Some t1"
    by simp
  then have a: "parseFreeDict teiText l = Some t1"
    by (simp add: parseFreeDict_def execLoop_foldl assms(1))
  have b: "\<forall>m t. m l = Some t \<longrightarrow> execLoop parseStep teiText m l = Some t"
    by (simp add: execLoop_foldl foldl_parseStep_keeps)
  from a b show ?thesis ..
qed

theorem parseFreeDict_first_wins_witness:
  "entryMatches (sampleTei ''anar'' ''v'' ''go'' @ sampleTei ''casa'' ''n'' ''house'' @
                 sampleTei ''anar'' ''v'' ''walk'')
     = [sampleTei ''anar'' ''v'' ''go'', sampleTei ''casa'' ''n'' ''house'',
        sampleTei ''anar'' ''v'' ''walk''] \<and>
   parseEntry (sampleTei ''anar'' ''v'' ''go'') = Some (''anar'', ''go'') \<and>
   parseEntry (sampleTei ''anar'' ''v'' ''walk'') = Some (''anar'', ''walk'') \<and>
   parseFreeDict (sampleTei ''anar'' ''v'' ''go'' @ sampleTei ''casa'' ''n'' ''house'' @
                  sampleTei ''anar'' ''v'' ''walk'') ''anar'' = Some ''go''"
proof -
  have m: "entryMatches (sampleTei ''anar'' ''v'' ''go'' @ sampleTei ''casa'' ''n'' ''house'' @
                 sampleTei ''anar'' ''v'' ''walk'')
     = [] @ sampleTei ''anar'' ''v'' ''go'' # [sampleTei ''casa'' ''n'' ''house''] @
        sampleTei ''anar'' ''v'' ''walk'' # []"
    by code_simp
  have p1: "parseEntry (sampleTei ''anar'' ''v'' ''go'') = Some (''anar'', ''go'')"
    by code_simp
  have p2: "parseEntry (sampleTei ''anar'' ''v'' ''walk'') = Some (''anar'', ''walk'')"
    by code_simp
  have none: "\<forall>e \<in> set []. \<forall>t. parseEntry e \<noteq> Some (''anar'', t)" by simp
  from parseFreeDict_first_wins [OF m p1 p2 none] m p1 p2 show ?thesis by simp
qed


end
